theory Spec2Isabelle
  imports Main "HOL-Library.AList" "HOL-Library.Log_Nat"
begin

section \<open>Python values\<close>

text \<open>
  The records handled by the enrichment pipeline are Python dictionaries with string keys
  and values of any JSON shape. Dictionaries are association lists in insertion order,
  as Python keeps them; numbers are Python's unbounded integers, the only numbers the
  providers of this repository produce.
\<close>

datatype pyval =
    PNone
  | PBool bool
  | PInt int
  | PStr string
  | PList "pyval list"
  | PDict "(string \<times> pyval) list"

type_synonym pydict = "(string \<times> pyval) list"

datatype pyerr =
  AttributeError | TypeError | ZeroDivisionError | OverflowError | ProviderError string

text \<open>Truth value testing, as \<open>if value:\<close> and \<open>not value\<close> perform it.\<close>

fun truthy :: "pyval \<Rightarrow> bool" where
  "truthy PNone = False"
| "truthy (PBool b) = b"
| "truthy (PInt i) = (i \<noteq> 0)"
| "truthy (PStr s) = (s \<noteq> [])"
| "truthy (PList xs) = (xs \<noteq> [])"
| "truthy (PDict d) = (d \<noteq> [])"

text \<open>\<open>d.get(k, default)\<close>, \<open>k in d\<close> and \<open>d[k] = v\<close> on an insertion-ordered dictionary.\<close>

definition dict_get :: "('k \<times> 'v) list \<Rightarrow> 'k \<Rightarrow> 'v \<Rightarrow> 'v" where
  "dict_get d k dflt = (case map_of d k of Some v \<Rightarrow> v | None \<Rightarrow> dflt)"

definition dict_set :: "('k \<times> 'v) list \<Rightarrow> 'k \<Rightarrow> 'v \<Rightarrow> ('k \<times> 'v) list" where
  "dict_set d k v = AList.update k v d"

text \<open>
  Text is a sequence of 8-bit code points, the characters of \<open>string\<close>. On that range
  \<open>str.lower()\<close> works character by character: it moves the letters \<open>A\<close> to \<open>Z\<close> and the
  accented capitals U+00C0 to U+00DE, the multiplication sign U+00D7 apart, to the code
  point 32 above, and keeps every other character.
\<close>

definition upper_letters :: string where
  "upper_letters =
     ''ABCDEFGHIJKLMNOPQRSTUVWXYZ'' @
     [CHR 0xC0, CHR 0xC1, CHR 0xC2, CHR 0xC3, CHR 0xC4, CHR 0xC5, CHR 0xC6, CHR 0xC7,
      CHR 0xC8, CHR 0xC9, CHR 0xCA, CHR 0xCB, CHR 0xCC, CHR 0xCD, CHR 0xCE, CHR 0xCF,
      CHR 0xD0, CHR 0xD1, CHR 0xD2, CHR 0xD3, CHR 0xD4, CHR 0xD5, CHR 0xD6, CHR 0xD8,
      CHR 0xD9, CHR 0xDA, CHR 0xDB, CHR 0xDC, CHR 0xDD, CHR 0xDE]"

definition lower_letters :: string where
  "lower_letters =
     ''abcdefghijklmnopqrstuvwxyz'' @
     [CHR 0xE0, CHR 0xE1, CHR 0xE2, CHR 0xE3, CHR 0xE4, CHR 0xE5, CHR 0xE6, CHR 0xE7,
      CHR 0xE8, CHR 0xE9, CHR 0xEA, CHR 0xEB, CHR 0xEC, CHR 0xED, CHR 0xEE, CHR 0xEF,
      CHR 0xF0, CHR 0xF1, CHR 0xF2, CHR 0xF3, CHR 0xF4, CHR 0xF5, CHR 0xF6, CHR 0xF8,
      CHR 0xF9, CHR 0xFA, CHR 0xFB, CHR 0xFC, CHR 0xFD, CHR 0xFE]"

definition lower_char :: "char \<Rightarrow> char" where
  "lower_char c = (case map_of (zip upper_letters lower_letters) c of Some d \<Rightarrow> d | None \<Rightarrow> c)"

definition lower :: "string \<Rightarrow> string" where
  "lower s = map lower_char s"

section \<open>Merging company records\<close>

text \<open>
  \<open>_merge_company_data\<close> keeps the records in a dictionary keyed by lower-cased name and
  fills the gaps of a stored record in place. The model passes that dictionary along as
  an association list and returns the merged records as values.
\<close>

text \<open>\<open>company.get("name", "").lower()\<close>: a name that is not a string has no \<open>lower\<close>.\<close>

definition name_key :: "pydict \<Rightarrow> pyerr + string" where
  "name_key company =
     (case dict_get company ''name'' (PStr []) of
        PStr s \<Rightarrow> Inr (lower s)
      | _ \<Rightarrow> Inl AttributeError)"

text \<open>The first loop of \<open>_merge_company_data\<close>, over the Crunchbase companies.\<close>

fun merge_cb :: "(string \<times> pydict) list \<Rightarrow> pydict list \<Rightarrow> pyerr + (string \<times> pydict) list" where
  "merge_cb merged [] = Inr merged"
| "merge_cb merged (company # rest) =
     (case name_key company of
        Inl e \<Rightarrow> Inl e
      | Inr name \<Rightarrow>
          merge_cb (if name \<noteq> [] then dict_set merged name company else merged) rest)"

text \<open>
  The innermost loop: \<open>for key, value in company.items()\<close>, writing a truthy value of
  the PitchBook record into the merged record where that has no truthy value.
\<close>

definition falsy_or_missing :: "pydict \<Rightarrow> string \<Rightarrow> bool" where
  "falsy_or_missing record key =
     (case map_of record key of None \<Rightarrow> True | Some old \<Rightarrow> \<not> truthy old)"

fun fill_gaps :: "pydict \<Rightarrow> (string \<times> pyval) list \<Rightarrow> pydict" where
  "fill_gaps target [] = target"
| "fill_gaps target ((key, val) # items) =
     fill_gaps
       (if truthy val \<and> falsy_or_missing target key then dict_set target key val else target)
       items"

text \<open>The second loop, over the PitchBook companies.\<close>

fun merge_pb :: "(string \<times> pydict) list \<Rightarrow> pydict list \<Rightarrow> pyerr + (string \<times> pydict) list" where
  "merge_pb merged [] = Inr merged"
| "merge_pb merged (company # rest) =
     (case name_key company of
        Inl e \<Rightarrow> Inl e
      | Inr name \<Rightarrow>
          if name = [] then merge_pb merged rest
          else (case map_of merged name of
                  Some existing \<Rightarrow>
                    merge_pb (dict_set merged name (fill_gaps existing company)) rest
                | None \<Rightarrow> merge_pb (dict_set merged name company) rest))"

definition merge_company_data :: "pydict list \<Rightarrow> pydict list \<Rightarrow> pyerr + pydict list" where
  "merge_company_data cb_companies pb_companies =
     (case merge_cb [] cb_companies of
        Inl e \<Rightarrow> Inl e
      | Inr merged \<Rightarrow>
          (case merge_pb merged pb_companies of
             Inl e \<Rightarrow> Inl e
           | Inr merged' \<Rightarrow> Inr (map snd merged')))"

text \<open>
  A company record whose \<open>name\<close> is absent or a string: the shape the providers build.
\<close>

definition has_str_name :: "pydict \<Rightarrow> bool" where
  "has_str_name c =
     (case map_of c ''name'' of None \<Rightarrow> True | Some (PStr s) \<Rightarrow> True | Some _ \<Rightarrow> False)"

text \<open>
  The invariant of the \<open>merged\<close> dictionary: its keys are distinct, as those of any
  dictionary, and every record is stored under its own lower-cased, non-empty name.
\<close>

definition keyed :: "(string \<times> pydict) list \<Rightarrow> bool" where
  "keyed m \<longleftrightarrow> distinct (map fst m) \<and> (\<forall>(k, r) \<in> set m. name_key r = Inr k \<and> k \<noteq> [])"

definition the_key :: "pydict \<Rightarrow> string" where
  "the_key c = (case name_key c of Inr k \<Rightarrow> k | Inl _ \<Rightarrow> [])"

text \<open>Sample company records.\<close>

definition acme_a :: pydict where
  "acme_a = [(''name'', PStr ''Acme''), (''website'', PStr ''a.com'')]"

definition acme_b :: pydict where
  "acme_b = [(''name'', PStr ''Acme''), (''website'', PStr ''b.com''), (''founded'', PStr ''2020'')]"

definition acme_lower :: pydict where
  "acme_lower = [(''name'', PStr ''acme''), (''website'', PStr ''b.com'')]"

definition beta_co :: pydict where
  "beta_co = [(''name'', PStr ''Beta''), (''website'', PStr [])]"

section \<open>Strings and formatting\<close>

text \<open>\<open>sep.join(items)\<close> on strings, and on values: a value that is not a string raises.\<close>

fun join :: "string \<Rightarrow> string list \<Rightarrow> string" where
  "join sep [] = []"
| "join sep [x] = x"
| "join sep (x # y # ys) = x @ sep @ join sep (y # ys)"

fun strs_of :: "pyval list \<Rightarrow> pyerr + string list" where
  "strs_of [] = Inr []"
| "strs_of (PStr s # vs) = (case strs_of vs of Inl e \<Rightarrow> Inl e | Inr ss \<Rightarrow> Inr (s # ss))"
| "strs_of (_ # vs) = Inl TypeError"

definition py_join :: "string \<Rightarrow> pyval list \<Rightarrow> pyerr + string" where
  "py_join sep items = (case strs_of items of Inl e \<Rightarrow> Inl e | Inr ss \<Rightarrow> Inr (join sep ss))"

text \<open>Decimal digits of an integer, as \<open>str\<close> prints them.\<close>

definition digit_char :: "nat \<Rightarrow> char" where
  "digit_char d = ''0123456789'' ! (d mod 10)"

function show_nat :: "nat \<Rightarrow> string" where
  "show_nat n = (if n < 10 then [digit_char n] else show_nat (n div 10) @ [digit_char (n mod 10)])"
  by pat_completeness auto
termination
  by (relation "measure id") auto

declare show_nat.simps [simp del]

definition show_int :: "int \<Rightarrow> string" where
  "show_int i = (if i < 0 then CHR ''-'' # show_nat (nat (- i)) else show_nat (nat i))"

text \<open>
  \<open>repr\<close> of a string: single quotes unless the text holds a single quote and no double
  quote; backslash and the quote escaped, and the code points that do not print (those
  below 32, 127 to 160 and 173) written \<open>\xhh\<close>, three of them by their letter.
\<close>

definition hex_char :: "nat \<Rightarrow> char" where
  "hex_char d = ''0123456789abcdef'' ! (d mod 16)"

definition repr_char :: "char \<Rightarrow> char \<Rightarrow> string" where
  "repr_char quote c =
     (if c = CHR 0x5C then [CHR 0x5C, CHR 0x5C]
      else if c = quote then [CHR 0x5C, quote]
      else if c = CHR 0x09 then [CHR 0x5C, CHR ''t'']
      else if c = CHR 0x0A then [CHR 0x5C, CHR ''n'']
      else if c = CHR 0x0D then [CHR 0x5C, CHR ''r'']
      else if (of_char c :: nat) < 32 \<or> (127 \<le> (of_char c :: nat) \<and> (of_char c :: nat) \<le> 160)
              \<or> (of_char c :: nat) = 173
        then [CHR 0x5C, CHR ''x'', hex_char (of_char c div 16), hex_char (of_char c mod 16)]
      else [c])"

definition repr_str :: "string \<Rightarrow> string" where
  "repr_str s =
     (let quote = (if CHR 0x27 \<in> set s \<and> CHR 0x22 \<notin> set s then CHR 0x22 else CHR 0x27)
      in quote # concat (map (repr_char quote) s) @ [quote])"

fun py_repr :: "pyval \<Rightarrow> string" where
  "py_repr PNone = ''None''"
| "py_repr (PBool b) = (if b then ''True'' else ''False'')"
| "py_repr (PInt i) = show_int i"
| "py_repr (PStr s) = repr_str s"
| "py_repr (PList xs) = ''['' @ join '', '' (map py_repr xs) @ '']''"
| "py_repr (PDict d) =
     ''{'' @ join '', '' (map (\<lambda>kv. repr_str (fst kv) @ '': '' @ py_repr (snd kv)) d) @ ''}''"

text \<open>What an f-string prints for a value: \<open>str(value)\<close>.\<close>

definition py_str :: "pyval \<Rightarrow> string" where
  "py_str v = (case v of PStr s \<Rightarrow> s | _ \<Rightarrow> py_repr v)"

text \<open>\<open>a or b\<close>, and \<open>len(value)\<close>, which numbers, booleans and \<open>None\<close> do not have.\<close>

definition py_or :: "pyval \<Rightarrow> pyval \<Rightarrow> pyval" where
  "py_or a b = (if truthy a then a else b)"

definition py_len :: "pyval \<Rightarrow> pyerr + nat" where
  "py_len v =
     (case v of
        PStr s \<Rightarrow> Inr (length s)
      | PList xs \<Rightarrow> Inr (length xs)
      | PDict d \<Rightarrow> Inr (length d)
      | _ \<Rightarrow> Inl TypeError)"

section \<open>Investment thesis\<close>

text \<open>The sentence of \<open>_derive_investment_thesis\<close> built from sectors and stages.\<close>

definition pattern_sentence :: "string list \<Rightarrow> string list \<Rightarrow> string" where
  "pattern_sentence sectors stages =
     (if sectors \<noteq> [] then
        ''Invests in '' @ join '', '' (take 3 sectors)
          @ (if stages \<noteq> [] then '' at '' @ join '', '' stages @ '' stages'' else [])
          @ ''.''
      else if stages \<noteq> [] then ''Focuses on '' @ join '', '' stages @ '' stage investments.''
      else ''General investment approach across various sectors and stages.'')"

text \<open>
  The names \<open>[c.get("name", "") for c in portfolio[:3] if c.get("name")]\<close>, collected
  only when the portfolio has at least three companies.
\<close>

definition sample_companies :: "pydict list \<Rightarrow> pyval list" where
  "sample_companies portfolio =
     (if portfolio \<noteq> [] \<and> length portfolio \<ge> 3
      then map (\<lambda>c. dict_get c ''name'' (PStr []))
             (filter (\<lambda>c. truthy (dict_get c ''name'' PNone)) (take 3 portfolio))
      else [])"

definition derive_investment_thesis ::
  "pydict \<Rightarrow> pydict \<Rightarrow> string list \<Rightarrow> string list \<Rightarrow> pydict list \<Rightarrow> pyerr + string" where
  "derive_investment_thesis cb_info pb_info sectors stages portfolio =
     (let cb_desc = dict_get cb_info ''description'' (PStr []);
          pb_desc = dict_get pb_info ''description'' (PStr []);
          description = py_or cb_desc pb_desc
      in case (if truthy description
               then (case py_len description of Inl e \<Rightarrow> Inl e | Inr n \<Rightarrow> Inr (n > 20))
               else Inr False) of
           Inl e \<Rightarrow> Inl e
         | Inr True \<Rightarrow> Inr (''Thesis: '' @ py_str description)
         | Inr False \<Rightarrow>
             (let derived_thesis = ''Pattern: '' @ pattern_sentence sectors stages;
                  names = sample_companies portfolio
              in if names \<noteq> [] then
                   (case py_join '', '' names of
                      Inl e \<Rightarrow> Inl e
                    | Inr listed \<Rightarrow> Inr (derived_thesis @ '' Portfolio includes '' @ listed @ ''.''))
                 else Inr derived_thesis))"

text \<open>Sample provider records.\<close>

definition short_cb_info :: pydict where
  "short_cb_info = [(''name'', PStr ''Mock Ventures''), (''description'', PStr ''Seed fund'')]"

definition long_pb_info :: pydict where
  "long_pb_info =
     [(''name'', PStr ''PB Ventures''),
      (''description'',
       PStr ''A venture capital firm with a focus on enterprise technology and fintech.'')]"

text \<open>A record whose field is absent or a string.\<close>

definition str_or_absent :: "pydict \<Rightarrow> string \<Rightarrow> bool" where
  "str_or_absent d key =
     (case map_of d key of None \<Rightarrow> True | Some (PStr s) \<Rightarrow> True | Some _ \<Rightarrow> False)"

section \<open>Floating-point numbers\<close>

text \<open>
  Python floats are IEEE 754 doubles. A finite double is a rational number, and every
  operation used here returns the exact result rounded to the nearest double, ties to the
  even significand: the model is the rounding function \<open>fl\<close> on the rationals.
  \<open>round(x)\<close> on a float rounds half to even as well and returns an integer.
\<close>

definition rhe :: "rat \<Rightarrow> int" where
  "rhe x =
     (let f = \<lfloor>x\<rfloor>; d = x - of_int f
      in if d < 1 / 2 then f else if 1 / 2 < d then f + 1 else if even f then f else f + 1)"

text \<open>The binary exponent of a positive number: \<open>2 ^ expo x \<le> x < 2 ^ (expo x + 1)\<close>.\<close>

definition expo :: "rat \<Rightarrow> int" where
  "expo x =
     (let (p, q) = quotient_of x; d = bitlen p - bitlen q
      in if 2 powi d \<le> x then d else d - 1)"

text \<open>
  The exponent of the last place of the double nearest to \<open>x\<close>: 53 significant bits, and
  the fixed spacing of the subnormal numbers below \<open>2 ^ - 1022\<close>.
\<close>

definition quantum :: "rat \<Rightarrow> int" where
  "quantum x = max (expo \<bar>x\<bar> - 52) (- 1074)"

definition fl :: "rat \<Rightarrow> rat" where
  "fl x = (if x = 0 then 0 else of_int (rhe (x / 2 powi quantum x)) * 2 powi quantum x)"

text \<open>
  The largest double is just below \<open>2 ^ 1024\<close>: a rounded value whose binary exponent
  is 1024 or more is out of range.
\<close>

definition overflows :: "rat \<Rightarrow> bool" where
  "overflows r \<longleftrightarrow> 1024 \<le> expo \<bar>r\<bar>"

text \<open>
  True division \<open>a / b\<close>: the rounded quotient; a zero divisor raises, and so does a
  quotient of integers beyond the largest double.
\<close>

definition py_truediv :: "rat \<Rightarrow> rat \<Rightarrow> pyerr + rat" where
  "py_truediv a b =
     (if b = 0 then Inl ZeroDivisionError
      else (let r = fl (a / b) in if overflows r then Inl OverflowError else Inr r))"

text \<open>The conversion of an integer to a float, which formatting with \<open>f\<close> performs.\<close>

definition to_float :: "int \<Rightarrow> pyerr + rat" where
  "to_float i = (let r = fl (of_int i) in if overflows r then Inl OverflowError else Inr r)"

text \<open>
  \<open>f"{x:.1f}"\<close> and \<open>f"{x:.0f}"\<close>: the decimal nearest to the exact value of the double,
  ties to even.
\<close>

definition format_1f :: "rat \<Rightarrow> string" where
  "format_1f x =
     (let n = nat (rhe (\<bar>x\<bar> * 10))
      in (if x < 0 then ''-'' else []) @ show_nat (n div 10) @ ''.'' @ show_nat (n mod 10))"

definition format_0f :: "rat \<Rightarrow> string" where
  "format_0f x = (if x < 0 then ''-'' else []) @ show_nat (nat (rhe \<bar>x\<bar>))"

section \<open>Check sizes\<close>

text \<open>
  \<open>if amount and amount > 0\<close>: \<open>None\<close> and empty values are skipped, a boolean counts as
  0 or 1, and comparing a non-empty string, list or dictionary with 0 raises.
\<close>

definition positive_amount :: "pyval \<Rightarrow> pyerr + int option" where
  "positive_amount amount =
     (if \<not> truthy amount then Inr None
      else (case amount of
              PInt i \<Rightarrow> Inr (if i > 0 then Some i else None)
            | PBool b \<Rightarrow> Inr (Some 1)
            | _ \<Rightarrow> Inl TypeError))"

fun collect_amounts :: "pydict list \<Rightarrow> pyerr + int list" where
  "collect_amounts [] = Inr []"
| "collect_amounts (deal # deals) =
     (case positive_amount (dict_get deal ''amount'' (PInt 0)) of
        Inl e \<Rightarrow> Inl e
      | Inr a \<Rightarrow>
          (case collect_amounts deals of
             Inl e \<Rightarrow> Inl e
           | Inr amounts \<Rightarrow> Inr (case a of None \<Rightarrow> amounts | Some v \<Rightarrow> v # amounts)))"

definition calculate_check_range :: "pydict list \<Rightarrow> pyerr + int \<times> int" where
  "calculate_check_range deals =
     (case collect_amounts deals of
        Inl e \<Rightarrow> Inl e
      | Inr amounts \<Rightarrow>
          if amounts = [] then Inr (0, 0)
          else (case py_truediv (of_int (Min (set amounts))) 1000 of
                  Inl e \<Rightarrow> Inl e
                | Inr min_amount \<Rightarrow>
                    (case py_truediv (of_int (Max (set amounts))) 1000 of
                       Inl e \<Rightarrow> Inl e
                     | Inr max_amount \<Rightarrow>
                         Inr (rhe (fl (min_amount / 50)) * 50, rhe (fl (max_amount / 50)) * 50))))"

text \<open>One bound of the range, or the sweet spot, in thousands or millions.\<close>

definition format_amount :: "int \<Rightarrow> pyerr + string" where
  "format_amount amount =
     (if amount \<ge> 1000 then
        (case py_truediv (of_int amount) 1000 of
           Inl e \<Rightarrow> Inl e
         | Inr millions \<Rightarrow> Inr (''$'' @ format_1f millions @ ''M''))
      else (case to_float amount of
              Inl e \<Rightarrow> Inl e
            | Inr thousands \<Rightarrow> Inr (''$'' @ format_0f thousands @ ''k'')))"

definition format_check_range :: "int \<Rightarrow> int \<Rightarrow> pyerr + string" where
  "format_check_range min_amount max_amount =
     (if min_amount = 0 \<and> max_amount = 0 then Inr ''Unknown''
      else (case format_amount min_amount of
              Inl e \<Rightarrow> Inl e
            | Inr min_str \<Rightarrow>
                (case format_amount max_amount of
                   Inl e \<Rightarrow> Inl e
                 | Inr max_str \<Rightarrow> Inr (min_str @ ''-'' @ max_str))))"

definition calculate_sweet_spot :: "pydict list \<Rightarrow> pyerr + int" where
  "calculate_sweet_spot deals =
     (case collect_amounts deals of
        Inl e \<Rightarrow> Inl e
      | Inr amounts \<Rightarrow>
          if amounts = [] then Inr 0
          else (let sorted_amounts = sort amounts; n = length sorted_amounts
                in case (if n mod 2 = 0
                         then py_truediv
                                (of_int (sorted_amounts ! (n div 2 - 1) + sorted_amounts ! (n div 2))) 2
                         else Inr (of_int (sorted_amounts ! (n div 2)))) of
                     Inl e \<Rightarrow> Inl e
                   | Inr median \<Rightarrow>
                       (case py_truediv median 1000 of
                          Inl e \<Rightarrow> Inl e
                        | Inr sweet_spot \<Rightarrow> Inr (rhe (fl (sweet_spot / 50)) * 50))))"

definition format_sweet_spot :: "int \<Rightarrow> pyerr + string" where
  "format_sweet_spot sweet_spot =
     (if sweet_spot = 0 then Inr ''Unknown'' else format_amount sweet_spot)"

section \<open>Lead or follow\<close>

definition lead_count :: "pydict list \<Rightarrow> nat" where
  "lead_count deals = length (filter (\<lambda>deal. truthy (dict_get deal ''is_lead'' (PBool False))) deals)"

definition determine_lead_follow :: "pydict list \<Rightarrow> pyerr + string" where
  "determine_lead_follow deals =
     (let total_count = length deals
      in if total_count = 0 then Inr ''Unknown''
         else (case py_truediv (of_nat (lead_count deals)) (of_nat total_count) of
                 Inl e \<Rightarrow> Inl e
               | Inr lead_ratio \<Rightarrow>
                   Inr (if lead_ratio \<ge> fl (7 / 10) then ''Lead''
                        else if lead_ratio \<le> fl (3 / 10) then ''Follow''
                        else ''Both'')))"

section \<open>Well-typed deals and sample data\<close>

text \<open>
  The number an amount field stands for, and a record whose amount is absent, an integer
  below a bound, a boolean, or an empty value such as \<open>None\<close>.
\<close>

definition amount_value :: "pydict \<Rightarrow> int" where
  "amount_value deal =
     (case dict_get deal ''amount'' (PInt 0) of PInt i \<Rightarrow> i | PBool b \<Rightarrow> of_bool b | _ \<Rightarrow> 0)"

definition amount_ok :: "int \<Rightarrow> pydict \<Rightarrow> bool" where
  "amount_ok bound deal \<longleftrightarrow>
     (case dict_get deal ''amount'' (PInt 0) of
        PInt i \<Rightarrow> i < bound | PBool b \<Rightarrow> True | v \<Rightarrow> \<not> truthy v)"

definition positive_amounts :: "pydict list \<Rightarrow> int list" where
  "positive_amounts deals = filter (\<lambda>a. 0 < a) (map amount_value deals)"

definition deals_750k_2500k :: "pydict list" where
  "deals_750k_2500k =
     [[(''company'', PStr ''Acme''), (''amount'', PInt 750000)],
      [(''company'', PStr ''Beta''), (''amount'', PInt 2500000)],
      [(''company'', PStr ''Gamma'')]]"

definition lead_deal :: pydict where
  "lead_deal = [(''company'', PStr ''Acme''), (''amount'', PInt 750000), (''is_lead'', PBool True)]"

definition follow_deal :: pydict where
  "follow_deal = [(''company'', PStr ''Beta''), (''amount'', PInt 2500000), (''is_lead'', PBool False)]"

definition leads_of :: "nat \<Rightarrow> nat \<Rightarrow> pydict list" where
  "leads_of k n = replicate k lead_deal @ replicate (n - k) follow_deal"

section \<open>Median and sample deals\<close>

text \<open>
  The median as the specification words it: the middle value of the sorted amounts, the
  average of the two middle values for an even count. Exact arithmetic.
\<close>

definition median :: "int list \<Rightarrow> rat" where
  "median xs =
     (let s = sort xs; n = length s
      in if even n then (of_int (s ! (n div 2 - 1)) + of_int (s ! (n div 2))) / 2
         else of_int (s ! (n div 2)))"

definition sample_deals :: "pydict list" where
  "sample_deals =
     [[(''company'', PStr ''Acme''), (''amount'', PInt 8000000)],
      [(''company'', PStr ''Beta''), (''amount'', PInt 750000)],
      [(''company'', PStr ''Gamma''), (''amount'', PInt 0)],
      [(''company'', PStr ''Delta''), (''amount'', PInt 15000000)],
      [(''company'', PStr ''Epsilon''), (''amount'', PInt 2500000)]]"

section \<open>Sector classification of the web scraper\<close>

text \<open>\<open>sub in text\<close>: the text holds \<open>sub\<close> as a contiguous run of characters.\<close>

fun starts_with :: "string \<Rightarrow> string \<Rightarrow> bool" where
  "starts_with [] s = True"
| "starts_with (x # xs) [] = False"
| "starts_with (x # xs) (y # ys) = (x = y \<and> starts_with xs ys)"

fun contains :: "string \<Rightarrow> string \<Rightarrow> bool" where
  "contains sub [] = (sub = [])"
| "contains sub (c # cs) = (starts_with sub (c # cs) \<or> contains sub cs)"

text \<open>
  \<open>text.count(sub)\<close> for a non-empty \<open>sub\<close>: the occurrences found from left to right,
  each search resuming after the previous occurrence. \<open>skip\<close> is the number of
  characters still covered by the occurrence just counted.
\<close>

fun count_from :: "string \<Rightarrow> nat \<Rightarrow> string \<Rightarrow> nat" where
  "count_from sub skip [] = 0"
| "count_from sub skip (c # cs) =
     (if skip > 0 then count_from sub (skip - 1) cs
      else if starts_with sub (c # cs) then 1 + count_from sub (length sub - 1) cs
      else count_from sub 0 cs)"

definition str_count :: "string \<Rightarrow> string \<Rightarrow> nat" where
  "str_count s sub = (if sub = [] then length s + 1 else count_from sub 0 s)"

definition sector_keywords :: "(string \<times> string list) list" where
  "sector_keywords =
     [(''Fintech'', [''fintech'', ''financial technology'', ''financial services'', ''banking'',
                     ''insurance'', ''payments'']),
      (''Enterprise SaaS'', [''enterprise'', ''saas'', ''software as a service'', ''b2b software'',
                             ''cloud software'']),
      (''Health Tech'', [''health'', ''healthcare'', ''medical'', ''biotech'', ''life sciences'',
                         ''digital health'']),
      (''AI/ML'', [''ai'', ''artificial intelligence'', ''machine learning'', ''deep learning'',
                   ''nlp'', ''computer vision'']),
      (''Cybersecurity'', [''security'', ''cybersecurity'', ''infosec'', ''data protection'',
                           ''privacy'']),
      (''E-commerce'', [''e-commerce'', ''ecommerce'', ''e commerce'', ''retail'',
                        ''direct to consumer'', ''d2c'', ''dtc'']),
      (''Edtech'', [''education'', ''edtech'', ''learning'', ''teaching'', ''training'']),
      (''Climate Tech'', [''climate'', ''cleantech'', ''sustainability'', ''green'', ''renewable'',
                          ''carbon'']),
      (''Consumer Apps'', [''consumer'', ''apps'', ''mobile apps'', ''social media'',
                           ''social network'']),
      (''B2B Marketplace'', [''b2b'', ''marketplace'', ''platform'', ''exchange'']),
      (''Web3/Blockchain'', [''web3'', ''blockchain'', ''crypto'', ''bitcoin'', ''ethereum'', ''nft'',
                             ''defi'', ''dao'']),
      (''Hardware'', [''hardware'', ''devices'', ''iot'', ''internet of things'', ''sensors'',
                      ''electronics'']),
      (''Robotics'', [''robotics'', ''robots'', ''automation'', ''autonomous'']),
      (''AR/VR'', [''augmented reality'', ''virtual reality'', ''ar'', ''vr'', ''mixed reality'',
                   ''metaverse'']),
      (''Space'', [''space'', ''aerospace'', ''satellite'', ''launch'']),
      (''AgTech'', [''agriculture'', ''agtech'', ''farming'', ''food production'']),
      (''Manufacturing'', [''manufacturing'', ''industry 4.0'', ''industrial'', ''factories'']),
      (''PropTech'', [''real estate'', ''proptech'', ''construction'', ''buildings'']),
      (''Mobility'', [''mobility'', ''transportation'', ''automotive'', ''electric vehicles'',
                      ''ev''])]"

text \<open>The first loop of \<open>_extract_sectors\<close>: the sectors with a keyword in the text.\<close>

definition flagged_sectors :: "string \<Rightarrow> string list" where
  "flagged_sectors text_lower =
     map fst (filter (\<lambda>(sector, keywords). \<exists>keyword\<in>set keywords. contains keyword text_lower)
                sector_keywords)"

text \<open>\<open>sum(text_lower.count(keyword) for keyword in keywords)\<close>.\<close>

definition keyword_score :: "string \<Rightarrow> string list \<Rightarrow> nat" where
  "keyword_score text_lower keywords = sum_list (map (str_count text_lower) keywords)"

text \<open>
  The scores of the flagged sectors, in vocabulary order, and the five best:
  \<open>sorted(..., key=score, reverse=True)\<close> is a stable sort by descending score.
\<close>

definition sector_scores :: "string \<Rightarrow> string list \<Rightarrow> (string \<times> nat) list" where
  "sector_scores text_lower sectors =
     map (\<lambda>(sector, keywords). (sector, keyword_score text_lower keywords))
       (filter (\<lambda>(sector, keywords). sector \<in> set sectors) sector_keywords)"

definition extract_sectors :: "string \<Rightarrow> string list" where
  "extract_sectors txt =
     (let text_lower = lower txt; sectors = flagged_sectors text_lower
      in if length sectors > 5
         then map fst (take 5 (sort_key (\<lambda>(sector, score). - int score)
                                 (sector_scores text_lower sectors)))
         else sectors)"

text \<open>The total keyword-occurrence count of a sector of the vocabulary.\<close>

definition score_of :: "string \<Rightarrow> string \<Rightarrow> nat" where
  "score_of txt sector = keyword_score (lower txt) (dict_get sector_keywords sector [])"

definition sample_text :: string where
  "sample_text = ''Fintech, SaaS, healthcare, AI, security, retail, education: AI first, fintech second.''"

section \<open>Fallback matching\<close>


text \<open>
  \<open>str.split()\<close>: the maximal runs of characters that are not whitespace. Whitespace is
  what \<open>str.isspace()\<close> accepts: among the 8-bit code points the space, the controls 9 to 13
  and 28 to 31, the next-line control U+0085 and the no-break space U+00A0.
\<close>

definition is_space :: "char \<Rightarrow> bool" where
  "is_space c \<longleftrightarrow> c \<in> set [CHR 0x20, CHR 0x09, CHR 0x0A, CHR 0x0B, CHR 0x0C, CHR 0x0D,
                               CHR 0x1C, CHR 0x1D, CHR 0x1E, CHR 0x1F, CHR 0x85, CHR 0xA0]"

fun split_from :: "string \<Rightarrow> string \<Rightarrow> string list" where
  "split_from word [] = (if word = [] then [] else [word])"
| "split_from word (c # cs) =
     (if is_space c then (if word = [] then split_from [] cs else word # split_from [] cs)
      else split_from (word @ [c]) cs)"

definition split :: "string \<Rightarrow> string list" where
  "split s = split_from [] s"

text \<open>\<open>value == "text"\<close>, iteration over a value, and \<open>items[:n]\<close>.\<close>

definition eq_str :: "pyval \<Rightarrow> string \<Rightarrow> bool" where
  "eq_str v s = (v = PStr s)"

definition py_iter :: "pyval \<Rightarrow> pyerr + pyval list" where
  "py_iter v =
     (case v of
        PList xs \<Rightarrow> Inr xs
      | PStr s \<Rightarrow> Inr (map (\<lambda>c. PStr [c]) s)
      | PDict d \<Rightarrow> Inr (map (\<lambda>kv. PStr (fst kv)) d)
      | _ \<Rightarrow> Inl TypeError)"






text \<open>
  \<open>any(item.lower() == name.lower() for item in items)\<close>: the search stops at the first
  hit, and an item reached before it that is not a string has no \<open>lower\<close>.
\<close>

fun any_lower_eq :: "string \<Rightarrow> pyval list \<Rightarrow> pyerr + bool" where
  "any_lower_eq target [] = Inr False"
| "any_lower_eq target (PStr s # items) =
     (if lower s = target then Inr True else any_lower_eq target items)"
| "any_lower_eq target (_ # items) = Inl AttributeError"

text \<open>
  One of the two scoring passes: the names of \<open>matched\<close>, in order, that the field of the
  profile holds; nothing when the field is falsy or nothing was matched.
\<close>

fun hits_in :: "pyval \<Rightarrow> string list \<Rightarrow> pyerr + string list" where
  "hits_in field [] = Inr []"
| "hits_in field (name # names) =
     (case py_iter field of
        Inl e \<Rightarrow> Inl e
      | Inr items \<Rightarrow>
          (case any_lower_eq (lower name) items of
             Inl e \<Rightarrow> Inl e
           | Inr hit \<Rightarrow>
               (case hits_in field names of
                  Inl e \<Rightarrow> Inl e
                | Inr hits \<Rightarrow> Inr (if hit then name # hits else hits))))"

definition field_hits :: "pydict \<Rightarrow> string \<Rightarrow> string list \<Rightarrow> pyerr + string list" where
  "field_hits vc key matched =
     (if truthy (dict_get vc key PNone) \<and> matched \<noteq> []
      then hits_in (dict_get vc key PNone) matched else Inr [])"

text \<open>
  The thesis test: some word of the description longer than four characters occurs in the
  lower-cased thesis. The thesis is lower-cased once per such word, so a thesis that is
  not a string raises only when there is one.
\<close>

definition thesis_match :: "pydict \<Rightarrow> string \<Rightarrow> pyerr + bool" where
  "thesis_match vc description_lower =
     (let thesis = dict_get vc ''Investment Thesis'' PNone;
          keywords = filter (\<lambda>keyword. length keyword > 4) (split description_lower)
      in if \<not> truthy thesis \<or> keywords = [] then Inr False
         else (case thesis of
                 PStr t \<Rightarrow> Inr (\<exists>keyword\<in>set keywords. contains keyword (lower t))
               | _ \<Rightarrow> Inl AttributeError))"

text \<open>The body of the loop over the profiles: the match record of a profile, if it scores.\<close>

definition score_vc ::
  "string \<Rightarrow> string list \<Rightarrow> string list \<Rightarrow> string option \<Rightarrow> pydict \<Rightarrow> pyerr + pydict option" where
  "score_vc description_lower matched_sectors matched_stages preference vc =
     (case field_hits vc ''Sector Focus'' matched_sectors of
        Inl e \<Rightarrow> Inl e
      | Inr sector_hits \<Rightarrow>
     (case field_hits vc ''Preferred Deal Stage'' matched_stages of
        Inl e \<Rightarrow> Inl e
      | Inr stage_hits \<Rightarrow>
     (let lead_follow = dict_get vc ''Lead/Follow'' PNone;
          lead_hit = (case preference of
                        None \<Rightarrow> False
                      | Some p \<Rightarrow> truthy lead_follow \<and> (eq_str lead_follow p \<or> eq_str lead_follow ''Both''))
      in case thesis_match vc description_lower of
           Inl e \<Rightarrow> Inl e
         | Inr thesis_hit \<Rightarrow>
             (let score = 30 * length sector_hits + 20 * length stage_hits
                          + (if lead_hit then 10 else 0) + (if thesis_hit then 15 else 0)
                          + (if eq_str (dict_get vc ''Status'' PNone) ''Active'' then 5 else 0);
                  match_reasons =
                    map (\<lambda>sector. ''Sector match: '' @ sector) sector_hits
                    @ map (\<lambda>stage. ''Stage match: '' @ stage) stage_hits
                    @ (if lead_hit then [''Lead/Follow match: '' @ the preference] else [])
                    @ (if thesis_hit then [''Thesis keywords match''] else [])
              in if score > 0
                 then Inr (Some
                   (dict_set
                     (dict_set
                       (dict_set vc ''match_score'' (PInt (int (min score 100))))
                       ''match_reason'' (PStr (join ''; '' match_reasons)))
                     ''caution''
                     (PStr ''This match was generated by a simplified algorithm due to API limitations.'')))
                 else Inr None))))"

text \<open>
  The profiles handed to the matcher and the match records it builds, \<open>{**vc, ...}\<close>, are
  dictionaries, which Python holds as objects. They live in a store, a list indexed by
  address; a new object takes the next free address, and a list of dictionaries is a list
  of addresses. No object is ever freed.
\<close>

type_synonym store = "pydict list"

definition record_at :: "store \<Rightarrow> nat \<Rightarrow> pydict" where
  "record_at st a = (if a < length st then st ! a else [])"

text \<open>
  The loop \<open>for vc in vc_data\<close>: a profile that scores adds a new match record to the store
  and its address to \<open>matches\<close>. An exception leaves the store as it is then.
\<close>

fun score_loop ::
  "string \<Rightarrow> string list \<Rightarrow> string list \<Rightarrow> string option \<Rightarrow> nat list \<Rightarrow> nat list \<Rightarrow> store
     \<Rightarrow> (pyerr + nat list) \<times> store" where
  "score_loop d sectors stages preference [] matches st = (Inr matches, st)"
| "score_loop d sectors stages preference (vc # vcs) matches st =
     (case score_vc d sectors stages preference (record_at st vc) of
        Inl e \<Rightarrow> (Inl e, st)
      | Inr None \<Rightarrow> score_loop d sectors stages preference vcs matches st
      | Inr (Some r) \<Rightarrow>
          score_loop d sectors stages preference vcs (matches @ [length st]) (st @ [r]))"



text \<open>
  What the caller reads from a run: the exception, or the records at the addresses
  returned, in the store the run leaves.
\<close>

definition returned :: "(pyerr + nat list) \<times> store \<Rightarrow> pyerr + pydict list" where
  "returned run =
     (case run of (Inl e, st) \<Rightarrow> Inl e | (Inr refs, st) \<Rightarrow> Inr (map (record_at st) refs))"








section \<open>Enrichment of a firm\<close>

text \<open>Sequencing of steps that may raise.\<close>

definition ebind :: "pyerr + 'a \<Rightarrow> ('a \<Rightarrow> pyerr + 'b) \<Rightarrow> pyerr + 'b" where
  "ebind m f = (case m of Inl e \<Rightarrow> Inl e | Inr x \<Rightarrow> f x)"

text \<open>\<open>value.get(key, default)\<close> and \<open>value.lower()\<close> on any value.\<close>

definition py_get :: "pyval \<Rightarrow> string \<Rightarrow> pyval \<Rightarrow> pyerr + pyval" where
  "py_get v key dflt = (case v of PDict d \<Rightarrow> Inr (dict_get d key dflt) | _ \<Rightarrow> Inl AttributeError)"

definition str_lower :: "pyval \<Rightarrow> pyerr + string" where
  "str_lower v = (case v of PStr s \<Rightarrow> Inr (lower s) | _ \<Rightarrow> Inl AttributeError)"

text \<open>
  The identity of a deal, \<open>f"{company}|{date}|{stage}"\<close> with company and stage in lower
  case.
\<close>

definition deal_key :: "pydict \<Rightarrow> pyerr + string" where
  "deal_key deal =
     ebind (str_lower (dict_get deal ''company'' (PStr []))) (\<lambda>company.
     ebind (str_lower (dict_get deal ''stage'' (PStr []))) (\<lambda>stage.
       Inr (company @ ''|'' @ py_str (dict_get deal ''date'' (PStr [])) @ ''|'' @ stage)))"

text \<open>
  The records that the providers build are objects of the store as well: the memo tables
  and the profiles hold them by address, and the two merges write into them. Both merges
  run the same two loops, over a dictionary \<open>merged\<close> from key to object: the first stores
  each object of the first list under its key, the second stores an object of the second
  list under a new key or fills the gaps of the object that has its key,
  \<open>merged[name][key] = value\<close>, which changes that object for every holder.
\<close>

fun merge_first_at ::
  "(pydict \<Rightarrow> pyerr + string) \<Rightarrow> (string \<times> nat) list \<Rightarrow> nat list \<Rightarrow> store
     \<Rightarrow> pyerr + (string \<times> nat) list" where
  "merge_first_at key_of merged [] st = Inr merged"
| "merge_first_at key_of merged (item # rest) st =
     (case key_of (record_at st item) of
        Inl e \<Rightarrow> Inl e
      | Inr key \<Rightarrow>
          merge_first_at key_of (if key \<noteq> [] then dict_set merged key item else merged) rest st)"

fun merge_second_at ::
  "(pydict \<Rightarrow> pyerr + string) \<Rightarrow> (string \<times> nat) list \<Rightarrow> nat list \<Rightarrow> store
     \<Rightarrow> (pyerr + (string \<times> nat) list) \<times> store" where
  "merge_second_at key_of merged [] st = (Inr merged, st)"
| "merge_second_at key_of merged (item # rest) st =
     (case key_of (record_at st item) of
        Inl e \<Rightarrow> (Inl e, st)
      | Inr key \<Rightarrow>
          if key = [] then merge_second_at key_of merged rest st
          else (case map_of merged key of
                  Some existing \<Rightarrow>
                    merge_second_at key_of merged rest
                      (st[existing := fill_gaps (record_at st existing) (record_at st item)])
                | None \<Rightarrow> merge_second_at key_of (dict_set merged key item) rest st))"

definition merge_at ::
  "(pydict \<Rightarrow> pyerr + string) \<Rightarrow> nat list \<Rightarrow> nat list \<Rightarrow> store \<Rightarrow> (pyerr + nat list) \<times> store" where
  "merge_at key_of first second st =
     (case merge_first_at key_of [] first st of
        Inl e \<Rightarrow> (Inl e, st)
      | Inr merged \<Rightarrow>
          (case merge_second_at key_of merged second st of
             (Inl e, st') \<Rightarrow> (Inl e, st')
           | (Inr merged', st') \<Rightarrow> (Inr (map snd merged'), st')))"

text \<open>\<open>_merge_company_data\<close> and \<open>_merge_deal_data\<close> on the objects of a store.\<close>

definition merge_company_at :: "nat list \<Rightarrow> nat list \<Rightarrow> store \<Rightarrow> (pyerr + nat list) \<times> store" where
  "merge_company_at cb_companies pb_companies st = merge_at name_key cb_companies pb_companies st"

definition merge_deal_at :: "nat list \<Rightarrow> nat list \<Rightarrow> store \<Rightarrow> (pyerr + nat list) \<times> store" where
  "merge_deal_at cb_deals pb_deals st = merge_at deal_key cb_deals pb_deals st"

text \<open>
  Counting in a dictionary, \<open>counts[k] = counts.get(k, 0) + 1\<close>, and the ranking shared by
  the sector and stage derivations: the keys counted at least twice, by descending count,
  the sort being stable.
\<close>

definition bump :: "(string \<times> nat) list \<Rightarrow> string \<Rightarrow> (string \<times> nat) list" where
  "bump counts k = dict_set counts k (dict_get counts k 0 + 1)"

definition ranked :: "(string \<times> nat) list \<Rightarrow> string list" where
  "ranked counts =
     sort_key (\<lambda>k. - int (dict_get counts k 0))
       (map fst (filter (\<lambda>(k, n). n \<ge> 2) counts))"

fun count_categories :: "(string \<times> nat) list \<Rightarrow> pyval list \<Rightarrow> (string \<times> nat) list" where
  "count_categories counts [] = counts"
| "count_categories counts (category # rest) =
     count_categories
       (case category of PStr s \<Rightarrow> if s \<noteq> [] then bump counts s else counts | _ \<Rightarrow> counts)
       rest"

fun count_sectors :: "(string \<times> nat) list \<Rightarrow> pydict list \<Rightarrow> pyerr + (string \<times> nat) list" where
  "count_sectors counts [] = Inr counts"
| "count_sectors counts (company # rest) =
     (case py_iter (dict_get company ''categories'' (PList [])) of
        Inl e \<Rightarrow> Inl e
      | Inr categories \<Rightarrow> count_sectors (count_categories counts categories) rest)"

definition derive_sector_focus :: "pydict list \<Rightarrow> pyerr + string list" where
  "derive_sector_focus portfolio =
     ebind (count_sectors [] portfolio) (\<lambda>sector_counts. Inr (take 10 (ranked sector_counts)))"

definition normalize_stage :: "string \<Rightarrow> string" where
  "normalize_stage stage =
     (let stage_lower = lower stage
      in if contains ''pre-seed'' stage_lower \<or> contains ''preseed'' stage_lower then ''Pre-seed''
         else if contains ''seed'' stage_lower \<or> contains ''angel'' stage_lower then ''Seed''
         else if contains ''series a'' stage_lower then ''Series A''
         else if contains ''series b'' stage_lower then ''Series B''
         else if \<exists>s\<in>set [''series c'', ''series d'', ''series e'', ''series f''].
                   contains s stage_lower then ''Series C+''
         else if contains ''late'' stage_lower \<and> contains ''stage'' stage_lower then ''Series C+''
         else if contains ''early'' stage_lower \<and> contains ''stage'' stage_lower then ''Seed+''
         else [])"

fun count_stages :: "(string \<times> nat) list \<Rightarrow> pydict list \<Rightarrow> pyerr + (string \<times> nat) list" where
  "count_stages counts [] = Inr counts"
| "count_stages counts (deal # rest) =
     (let stage = dict_get deal ''stage'' (PStr [])
      in if truthy stage then
           (case stage of
              PStr s \<Rightarrow>
                (let norm_stage = normalize_stage s
                 in count_stages (if norm_stage \<noteq> [] then bump counts norm_stage else counts) rest)
            | _ \<Rightarrow> Inl AttributeError)
         else count_stages counts rest)"

definition derive_stage_preference :: "pydict list \<Rightarrow> pyerr + string list" where
  "derive_stage_preference deals =
     ebind (count_stages [] deals) (\<lambda>stage_counts. Inr (ranked stage_counts))"

text \<open>The region table of \<open>_determine_geo_focus\<close>, in the order of its tests.\<close>

definition geo_regions :: "(string \<times> string list) list" where
  "geo_regions =
     [(''Silicon Valley'', [''san francisco'', ''palo alto'', ''menlo park'', ''mountain view'',
                            ''silicon valley'', ''bay area'', ''san jose'', ''oakland'']),
      (''New York'', [''new york'', ''nyc'', ''brooklyn'', ''manhattan'']),
      (''Boston'', [''boston'', ''cambridge, ma'', ''massachusetts'']),
      (''Midwest'', [''chicago'', ''detroit'', ''minneapolis'', ''ohio'', ''michigan'',
                     ''illinois'', ''wisconsin'', ''indiana'']),
      (''Southeast'', [''atlanta'', ''miami'', ''florida'', ''carolina'', ''tennessee'',
                       ''georgia'', ''alabama'', ''louisiana'']),
      (''Texas'', [''texas'', ''austin'', ''dallas'', ''houston'']),
      (''Pacific Northwest'', [''seattle'', ''portland'', ''washington'', ''oregon'']),
      (''Europe'', [''london'', ''berlin'', ''paris'', ''amsterdam'', ''europe'']),
      (''Asia'', [''china'', ''india'', ''japan'', ''singapore'', ''hong kong'', ''asia''])]"

definition determine_geo_focus :: "pydict \<Rightarrow> pydict \<Rightarrow> pydict list \<Rightarrow> pyerr + string" where
  "determine_geo_focus cb_info pb_info portfolio =
     (let location = py_or (dict_get cb_info ''location'' (PStr []))
                           (dict_get pb_info ''location'' (PStr []))
      in if truthy location then
           ebind (str_lower location) (\<lambda>location_lower.
             case find (\<lambda>(region, places). \<exists>loc\<in>set places. contains loc location_lower)
                    geo_regions of
               Some (region, places) \<Rightarrow> Inr region
             | None \<Rightarrow>
                 if contains ''ca'' location_lower \<or> contains ''california'' location_lower
                 then Inr ''California'' else Inr ''USA'')
         else Inr ''USA'')"

text \<open>
  \<open>any(d.get("date", "").startswith("202") for d in deals)\<close> and the status: active unless
  there is neither a deal of the 2020s nor a portfolio.
\<close>

fun any_recent :: "pydict list \<Rightarrow> pyerr + bool" where
  "any_recent [] = Inr False"
| "any_recent (d # ds) =
     (case dict_get d ''date'' (PStr []) of
        PStr s \<Rightarrow> if starts_with ''202'' s then Inr True else any_recent ds
      | _ \<Rightarrow> Inl AttributeError)"

definition derive_status :: "pydict list \<Rightarrow> pydict list \<Rightarrow> pyerr + string" where
  "derive_status merged_deals merged_portfolio =
     ebind (if merged_deals = [] then Inr True
            else ebind (any_recent merged_deals) (\<lambda>recent. Inr (\<not> recent))) (\<lambda>stale.
       Inr (if stale \<and> merged_portfolio = [] then ''Unknown'' else ''Active''))"

text \<open>\<open>{**base, key: value, ...}\<close>: a copy of \<open>base\<close> with the fields set in order.\<close>

definition with_fields :: "pydict \<Rightarrow> (string \<times> pyval) list \<Rightarrow> pydict" where
  "with_fields base updates = fold (\<lambda>(key, val) d. dict_set d key val) updates base"

text \<open>
  Steps 4 and 5 of \<open>enrich_vc_data\<close>: the derivations, which only read the merged records,
  and the enhanced record.
\<close>

definition derive_profile ::
  "pydict \<Rightarrow> pydict \<Rightarrow> pydict \<Rightarrow> pydict list \<Rightarrow> pydict list \<Rightarrow> pyerr + pydict" where
  "derive_profile vc_data cb_info pb_info merged_portfolio merged_deals =
     ebind (derive_sector_focus merged_portfolio) (\<lambda>sector_focus.
     ebind (derive_stage_preference merged_deals) (\<lambda>stage_preference.
     ebind (calculate_check_range merged_deals) (\<lambda>(min_check, max_check).
     ebind (format_check_range min_check max_check) (\<lambda>check_range.
     ebind (calculate_sweet_spot merged_deals) (\<lambda>sweet_spot.
     ebind (format_sweet_spot sweet_spot) (\<lambda>sweet_spot_str.
     ebind (determine_lead_follow merged_deals) (\<lambda>lead_follow.
     ebind (determine_geo_focus cb_info pb_info merged_portfolio) (\<lambda>geo_focus.
     ebind (derive_investment_thesis cb_info pb_info sector_focus stage_preference
              merged_portfolio) (\<lambda>investment_thesis.
     ebind (derive_status merged_deals merged_portfolio) (\<lambda>status.
       Inr (with_fields vc_data
         [(''About'', py_or (dict_get cb_info ''description'' (PStr []))
                            (dict_get pb_info ''description'' (PStr []))),
          (''Investment Thesis'', PStr investment_thesis),
          (''Sector Focus'', PList (map PStr sector_focus)),
          (''Preferred Deal Stage'', PList (map PStr stage_preference)),
          (''Check Range'', PStr check_range),
          (''Check Sweet Spot'', PStr sweet_spot_str),
          (''Geo Focus'', PStr geo_focus),
          (''Status'', PStr status),
          (''Lead/Follow'', PStr lead_follow),
          (''Portfolio'', PList (map PDict merged_portfolio)),
          (''Deals'', PList (map PDict merged_deals))])))))))))))"

text \<open>
  Steps 3 to 5: the two merges, then the derivations on the merged records as the store
  has them. The result is the enhanced record with the addresses its \<open>Portfolio\<close> and
  \<open>Deals\<close> lists hold; the record itself shows those objects as they are on return.
\<close>

definition build_profile ::
  "pydict \<Rightarrow> pydict \<Rightarrow> pydict \<Rightarrow> nat list \<Rightarrow> nat list \<Rightarrow> nat list \<Rightarrow> nat list \<Rightarrow> store
     \<Rightarrow> (pyerr + pydict \<times> nat list \<times> nat list) \<times> store" where
  "build_profile vc_data cb_info pb_info cb_portfolio cb_deals pb_portfolio pb_deals st =
     (case merge_company_at cb_portfolio pb_portfolio st of
        (Inl e, st1) \<Rightarrow> (Inl e, st1)
      | (Inr merged_portfolio, st1) \<Rightarrow>
          (case merge_deal_at cb_deals pb_deals st1 of
             (Inl e, st2) \<Rightarrow> (Inl e, st2)
           | (Inr merged_deals, st2) \<Rightarrow>
               (case derive_profile vc_data cb_info pb_info
                       (map (record_at st2) merged_portfolio) (map (record_at st2) merged_deals) of
                  Inl e \<Rightarrow> (Inl e, st2)
                | Inr enhanced_vc \<Rightarrow> (Inr (enhanced_vc, merged_portfolio, merged_deals), st2))))"

text \<open>The record of the two exception handlers: the input with every derived field reset.\<close>

definition default_fields :: "(string \<times> pyval) list" where
  "default_fields =
     [(''About'', PStr []),
      (''Investment Thesis'', PStr []),
      (''Sector Focus'', PList []),
      (''Preferred Deal Stage'', PList []),
      (''Check Range'', PStr ''Unknown''),
      (''Check Sweet Spot'', PStr ''Unknown''),
      (''Geo Focus'', PStr ''USA''),
      (''Status'', PStr ''Unknown''),
      (''Lead/Follow'', PStr ''Unknown''),
      (''Portfolio'', PList []),
      (''Deals'', PList [])]"

definition default_profile :: "pydict \<Rightarrow> pydict" where
  "default_profile vc_data = with_fields vc_data default_fields"

text \<open>
  The two data providers are a capability of three lookups each, any of which may raise;
  what they answer is a parameter of the model. A list or dictionary cannot be a key of a
  memo table, and \<open>True\<close> and \<open>False\<close> are the keys 1 and 0.
\<close>

record providers =
  cb_get_vc_info :: "pyval \<Rightarrow> pyerr + pydict"
  cb_get_portfolio :: "pyval \<Rightarrow> pyerr + pydict list"
  cb_get_deals :: "pyval \<Rightarrow> pyerr + pydict list"
  pb_get_vc_info :: "pyval \<Rightarrow> pyerr + pydict"
  pb_get_portfolio :: "pyval \<Rightarrow> pyerr + pydict list"
  pb_get_deals :: "pyval \<Rightarrow> pyerr + pydict list"

text \<open>
  The state of a session: the six memo tables of the enricher, \<open>self.cache\<close>, and the store.
  The firm descriptions are never written to and are kept as values; a memoized portfolio
  or deal list is the list of the addresses of its records.
\<close>

record session =
  cb_info_cache :: "(pyval \<times> pydict) list"
  cb_portfolio_cache :: "(pyval \<times> nat list) list"
  cb_deals_cache :: "(pyval \<times> nat list) list"
  pb_info_cache :: "(pyval \<times> pydict) list"
  pb_portfolio_cache :: "(pyval \<times> nat list) list"
  pb_deals_cache :: "(pyval \<times> nat list) list"
  objects :: store

definition cache_key :: "pyval \<Rightarrow> pyerr + pyval" where
  "cache_key v =
     (case v of
        PList xs \<Rightarrow> Inl TypeError
      | PDict d \<Rightarrow> Inl TypeError
      | PBool b \<Rightarrow> Inr (PInt (if b then 1 else 0))
      | _ \<Rightarrow> Inr v)"

text \<open>
  \<open>if key in table: value = table[key] else: value = fetch(); table[key] = value\<close>, giving
  the value or the error and the table afterwards.
\<close>

definition cached :: "(pyval \<times> 'a) list \<Rightarrow> pyval \<Rightarrow> (pyerr + 'a) \<Rightarrow> (pyerr + 'a) \<times> (pyval \<times> 'a) list" where
  "cached table key fetch =
     (case cache_key key of
        Inl e \<Rightarrow> (Inl e, table)
      | Inr k \<Rightarrow>
          (case map_of table k of
             Some v \<Rightarrow> (Inr v, table)
           | None \<Rightarrow>
               (case fetch of
                  Inl e \<Rightarrow> (Inl e, table)
                | Inr v \<Rightarrow> (Inr v, dict_set table k v))))"

text \<open>
  The same for a list of records: the records a provider answers become new objects of the
  store, and the table keeps their addresses.
\<close>

definition allocate :: "store \<Rightarrow> pydict list \<Rightarrow> nat list \<times> store" where
  "allocate st records = ([length st ..< length st + length records], st @ records)"

definition cached_records ::
  "(pyval \<times> nat list) list \<Rightarrow> pyval \<Rightarrow> (pyerr + pydict list) \<Rightarrow> store
     \<Rightarrow> (pyerr + nat list) \<times> (pyval \<times> nat list) list \<times> store" where
  "cached_records table key fetch st =
     (case cache_key key of
        Inl e \<Rightarrow> (Inl e, table, st)
      | Inr k \<Rightarrow>
          (case map_of table k of
             Some refs \<Rightarrow> (Inr refs, table, st)
           | None \<Rightarrow>
               (case fetch of
                  Inl e \<Rightarrow> (Inl e, table, st)
                | Inr records \<Rightarrow>
                    (case allocate st records of
                       (refs, st') \<Rightarrow> (Inr refs, dict_set table k refs, st')))))"

text \<open>Steps that may raise and that change the session, in sequence.\<close>

definition bind_run ::
  "(session \<Rightarrow> (pyerr + 'a) \<times> session) \<Rightarrow> ('a \<Rightarrow> session \<Rightarrow> (pyerr + 'b) \<times> session)
     \<Rightarrow> session \<Rightarrow> (pyerr + 'b) \<times> session" where
  "bind_run m f s = (case m s of (Inl e, s') \<Rightarrow> (Inl e, s') | (Inr x, s') \<Rightarrow> f x s')"

definition get_vc_info :: "providers \<Rightarrow> pyval \<Rightarrow> session \<Rightarrow> (pyerr + pydict \<times> pydict) \<times> session" where
  "get_vc_info ps name =
     bind_run (\<lambda>s. case cached (cb_info_cache s) name (cb_get_vc_info ps name) of
                      (r, t) \<Rightarrow> (r, s\<lparr>cb_info_cache := t\<rparr>)) (\<lambda>cb.
     bind_run (\<lambda>s. case cached (pb_info_cache s) name (pb_get_vc_info ps name) of
                      (r, t) \<Rightarrow> (r, s\<lparr>pb_info_cache := t\<rparr>)) (\<lambda>pb s.
       (Inr (cb, pb), s)))"

definition get_portfolio_and_deals ::
  "providers \<Rightarrow> pyval \<Rightarrow> pyval \<Rightarrow> session
     \<Rightarrow> (pyerr + nat list \<times> nat list \<times> nat list \<times> nat list) \<times> session" where
  "get_portfolio_and_deals ps cb_id pb_id =
     bind_run (\<lambda>s. case cached_records (cb_portfolio_cache s) cb_id
                           (if truthy cb_id then cb_get_portfolio ps cb_id else Inr [])
                           (objects s) of
                      (r, t, st) \<Rightarrow> (r, s\<lparr>cb_portfolio_cache := t, objects := st\<rparr>)) (\<lambda>cb_pf.
     bind_run (\<lambda>s. case cached_records (cb_deals_cache s) cb_id
                           (if truthy cb_id then cb_get_deals ps cb_id else Inr [])
                           (objects s) of
                      (r, t, st) \<Rightarrow> (r, s\<lparr>cb_deals_cache := t, objects := st\<rparr>)) (\<lambda>cb_ds.
     bind_run (\<lambda>s. case cached_records (pb_portfolio_cache s) pb_id
                           (if truthy pb_id then pb_get_portfolio ps pb_id else Inr [])
                           (objects s) of
                      (r, t, st) \<Rightarrow> (r, s\<lparr>pb_portfolio_cache := t, objects := st\<rparr>)) (\<lambda>pb_pf.
     bind_run (\<lambda>s. case cached_records (pb_deals_cache s) pb_id
                           (if truthy pb_id then pb_get_deals ps pb_id else Inr [])
                           (objects s) of
                      (r, t, st) \<Rightarrow> (r, s\<lparr>pb_deals_cache := t, objects := st\<rparr>)) (\<lambda>pb_ds s.
       (Inr (cb_pf, cb_ds, pb_pf, pb_ds), s)))))"

text \<open>The \<open>try\<close> block of \<open>enrich_vc_data\<close>.\<close>

definition enrich_body ::
  "providers \<Rightarrow> pyval \<Rightarrow> pydict \<Rightarrow> session \<Rightarrow> (pyerr + pydict \<times> nat list \<times> nat list) \<times> session" where
  "enrich_body ps name vc_data =
     bind_run (get_vc_info ps name) (\<lambda>(cb, pb).
     bind_run (get_portfolio_and_deals ps (dict_get cb ''uuid'' (PStr []))
                 (dict_get pb ''uuid'' (PStr []))) (\<lambda>(cb_pf, cb_ds, pb_pf, pb_ds) s.
       (case build_profile vc_data cb pb cb_pf cb_ds pb_pf pb_ds (objects s) of
          (r, st) \<Rightarrow> (r, s\<lparr>objects := st\<rparr>))))"

text \<open>
  \<open>enrich_vc_data\<close>: the record is returned as it is when its name is missing or empty;
  otherwise any exception of the \<open>try\<close> block is replaced by the default record. Log lines
  are left out, but for the attribute access they make on the input. \<open>enrich_vc_refs\<close>
  gives the returned record with the addresses of the objects its \<open>Portfolio\<close> and \<open>Deals\<close>
  lists hold, if it holds any; \<open>enrich_vc_data\<close> gives the record alone, as the caller reads
  it on return.
\<close>

type_synonym links = "(nat list \<times> nat list) option"

definition enrich_vc_refs ::
  "providers \<Rightarrow> pyval \<Rightarrow> session \<Rightarrow> (pyerr + pyval \<times> links) \<times> session" where
  "enrich_vc_refs ps vc_data s =
     (case vc_data of
        PDict d \<Rightarrow>
          (let name = dict_get d ''Name'' (PStr [])
           in if \<not> truthy name then (Inr (vc_data, None), s)
              else (case enrich_body ps name d s of
                      (Inr (enhanced_vc, portfolio, deals), s') \<Rightarrow>
                        (Inr (PDict enhanced_vc, Some (portfolio, deals)), s')
                    | (Inl e, s') \<Rightarrow> (Inr (PDict (default_profile d), None), s')))
      | _ \<Rightarrow> (Inl AttributeError, s))"

definition enrich_vc_data :: "providers \<Rightarrow> pyval \<Rightarrow> session \<Rightarrow> (pyerr + pyval) \<times> session" where
  "enrich_vc_data ps vc_data s =
     (case enrich_vc_refs ps vc_data s of
        (Inr (enhanced_vc, held), s') \<Rightarrow> (Inr enhanced_vc, s')
      | (Inl e, s') \<Rightarrow> (Inl e, s'))"

text \<open>
  The loop of \<open>enrich_multiple_vcs\<close>: each firm in its own \<open>try\<close>; the handler reads the name
  of the input again, which raises anew, and ends the batch, when the input is not a
  dictionary.
\<close>

fun enrich_each ::
  "providers \<Rightarrow> pyval list \<Rightarrow> session \<Rightarrow> (pyerr + (pyval \<times> links) list) \<times> session" where
  "enrich_each ps [] s = (Inr [], s)"
| "enrich_each ps (vc # rest) s =
     (case (case py_get vc ''Name'' (PStr ''Unknown'') of
              Inl e \<Rightarrow> (Inl e, s)
            | Inr shown \<Rightarrow> enrich_vc_refs ps vc s) of
        (Inr enhanced_vc, s') \<Rightarrow>
          (case enrich_each ps rest s' of
             (Inl e, s'') \<Rightarrow> (Inl e, s'')
           | (Inr enhanced_vcs, s'') \<Rightarrow> (Inr (enhanced_vc # enhanced_vcs), s''))
      | (Inl e, s') \<Rightarrow>
          (case py_get vc ''Name'' (PStr ''Unknown'') of
             Inl e' \<Rightarrow> (Inl e', s')
           | Inr shown \<Rightarrow>
               (case vc of
                  PDict d \<Rightarrow>
                    (case enrich_each ps rest s' of
                       (Inl e, s'') \<Rightarrow> (Inl e, s'')
                     | (Inr enhanced_vcs, s'') \<Rightarrow>
                         (Inr ((PDict (default_profile d), None) # enhanced_vcs), s''))
                | _ \<Rightarrow> (Inl TypeError, s'))))"

text \<open>
  A returned record as it reads in a store: its \<open>Portfolio\<close> and \<open>Deals\<close> lists show the
  objects they hold as the store has them.
\<close>

definition read_in :: "store \<Rightarrow> pyval \<times> links \<Rightarrow> pyval" where
  "read_in st enhanced =
     (case enhanced of
        (PDict d, Some (portfolio, deals)) \<Rightarrow>
          PDict (dict_set
                   (dict_set d ''Portfolio'' (PList (map (\<lambda>a. PDict (record_at st a)) portfolio)))
                   ''Deals'' (PList (map (\<lambda>a. PDict (record_at st a)) deals)))
      | (v, held) \<Rightarrow> v)"

text \<open>
  \<open>enrich_multiple_vcs\<close>: the enhanced records, read when the batch returns. A merge made
  for a later firm may by then have filled a record that an earlier profile holds.
\<close>

definition enrich_multiple_vcs ::
  "providers \<Rightarrow> pyval list \<Rightarrow> session \<Rightarrow> (pyerr + pyval list) \<times> session" where
  "enrich_multiple_vcs ps vc_data_list s =
     (case enrich_each ps vc_data_list s of
        (Inr enhanced_vcs, s') \<Rightarrow> (Inr (map (read_in (objects s')) enhanced_vcs), s')
      | (Inl e, s') \<Rightarrow> (Inl e, s'))"

text \<open>Sample providers: one that answers, one whose every lookup raises.\<close>

definition sample_company :: "string \<Rightarrow> pydict" where
  "sample_company n =
     [(''uuid'', PStr n), (''name'', PStr n), (''description'', PStr ''A portfolio company''),
      (''website'', PStr []), (''founded'', PStr ''2018-01-01''),
      (''categories'', PList [PStr ''Software'', PStr ''Artificial Intelligence''])]"

definition sample_round :: "string \<Rightarrow> string \<Rightarrow> int \<Rightarrow> bool \<Rightarrow> pydict" where
  "sample_round company stage amount is_lead =
     [(''uuid'', PStr company), (''name'', PStr ''Funding Round''), (''date'', PStr ''2022-03-01''),
      (''stage'', PStr stage), (''amount'', PInt amount), (''is_lead'', PBool is_lead),
      (''company'', PStr company)]"

definition sample_providers :: providers where
  "sample_providers =
     \<lparr>cb_get_vc_info = (\<lambda>name.
        Inr [(''uuid'', PStr ''mock-uuid''), (''name'', PStr ''Mock Ventures''),
             (''description'',
              PStr ''A leading venture capital firm investing in technology startups.''),
             (''website'', PStr ''mockventures.com''), (''founded'', PStr ''2010-01-01''),
             (''location'', PStr ''San Francisco, CA''),
             (''categories'', PList [PStr ''Venture Capital'', PStr ''Finance''])]),
      cb_get_portfolio = (\<lambda>vc_id.
        Inr [sample_company ''Acme'', sample_company ''Beta'', sample_company ''Gamma'']),
      cb_get_deals = (\<lambda>vc_id.
        Inr [sample_round ''Acme'' ''Seed'' 750000 True,
             sample_round ''Beta'' ''Series A'' 2500000 False,
             sample_round ''Gamma'' ''Seed Round'' 8000000 False,
             sample_round ''Delta'' ''Series A'' 15000000 True]),
      pb_get_vc_info = (\<lambda>name. Inr []),
      pb_get_portfolio = (\<lambda>vc_id. Inr []),
      pb_get_deals = (\<lambda>vc_id. Inr [])\<rparr>"

definition failing_providers :: providers where
  "failing_providers =
     \<lparr>cb_get_vc_info = (\<lambda>name. Inl (ProviderError ''connection refused'')),
      cb_get_portfolio = (\<lambda>vc_id. Inl (ProviderError ''connection refused'')),
      cb_get_deals = (\<lambda>vc_id. Inl (ProviderError ''connection refused'')),
      pb_get_vc_info = (\<lambda>name. Inl (ProviderError ''connection refused'')),
      pb_get_portfolio = (\<lambda>vc_id. Inl (ProviderError ''connection refused'')),
      pb_get_deals = (\<lambda>vc_id. Inl (ProviderError ''connection refused''))\<rparr>"

definition empty_session :: session where
  "empty_session =
     \<lparr>cb_info_cache = [], cb_portfolio_cache = [], cb_deals_cache = [],
      pb_info_cache = [], pb_portfolio_cache = [], pb_deals_cache = [], objects = []\<rparr>"

definition acme_ventures :: pyval where
  "acme_ventures = PDict [(''Name'', PStr ''Acme Ventures''), (''Website'', PStr ''acmeventures.com'')]"

definition nameless_firm :: pyval where
  "nameless_firm = PDict [(''Website'', PStr ''nameless.vc'')]"

section \<open>Profile shape\<close>

text \<open>The shape of a profile: which fields are lists, which are strings.\<close>

definition derived_keys :: "string list" where
  "derived_keys = map fst default_fields"

definition list_fields :: "string list" where
  "list_fields = [''Sector Focus'', ''Preferred Deal Stage'', ''Portfolio'', ''Deals'']"

definition string_fields :: "string list" where
  "string_fields =
     [''Investment Thesis'', ''Check Range'', ''Check Sweet Spot'', ''Geo Focus'', ''Status'',
      ''Lead/Follow'']"

definition has_list :: "pydict \<Rightarrow> string \<Rightarrow> bool" where
  "has_list r key = (case map_of r key of Some (PList xs) \<Rightarrow> True | _ \<Rightarrow> False)"

definition has_str :: "pydict \<Rightarrow> string \<Rightarrow> bool" where
  "has_str r key = (case map_of r key of Some (PStr s) \<Rightarrow> True | _ \<Rightarrow> False)"

definition profile_shape :: "pydict \<Rightarrow> bool" where
  "profile_shape r \<longleftrightarrow>
     list_all (has_list r) list_fields \<and> list_all (has_str r) string_fields
     \<and> map_of r ''About'' \<noteq> None"

text \<open>Providers and cached answers whose firm descriptions are strings or absent.\<close>

definition descriptions_typed :: "providers \<Rightarrow> session \<Rightarrow> bool" where
  "descriptions_typed ps c \<longleftrightarrow>
     (\<forall>name info. cb_get_vc_info ps name = Inr info \<longrightarrow> str_or_absent info ''description'')
   \<and> (\<forall>name info. pb_get_vc_info ps name = Inr info \<longrightarrow> str_or_absent info ''description'')
   \<and> (\<forall>info\<in>snd ` set (cb_info_cache c). str_or_absent info ''description'')
   \<and> (\<forall>info\<in>snd ` set (pb_info_cache c). str_or_absent info ''description'')"

definition is_dict :: "pyval \<Rightarrow> bool" where
  "is_dict v = (case v of PDict d \<Rightarrow> True | _ \<Rightarrow> False)"

text \<open>
  An exception is raised while a firm is enriched: the firm has a name and the \<open>try\<close> block
  of \<open>enrich_vc_data\<close> raises in the session as it is then.
\<close>

definition raises :: "providers \<Rightarrow> pydict \<Rightarrow> session \<Rightarrow> bool" where
  "raises ps d s \<longleftrightarrow>
     truthy (dict_get d ''Name'' (PStr []))
     \<and> (case fst (enrich_body ps (dict_get d ''Name'' (PStr [])) d s) of
          Inl e \<Rightarrow> True
        | Inr enhanced \<Rightarrow> False)"

text \<open>Providers that answer for every firm but one, and two more input records.\<close>

definition flaky_providers :: providers where
  "flaky_providers =
     sample_providers
       \<lparr>cb_get_vc_info := (\<lambda>name.
          if name = PStr ''Beta Capital'' then Inl (ProviderError ''connection refused'')
          else cb_get_vc_info sample_providers name)\<rparr>"

definition beta_capital :: pyval where
  "beta_capital = PDict [(''Name'', PStr ''Beta Capital''), (''Website'', PStr ''betacapital.com'')]"

text \<open>
  Providers under which every firm has the same Crunchbase id and its own PitchBook id,
  its name, and two firms.
\<close>

definition shared_providers :: providers where
  "shared_providers =
     \<lparr>cb_get_vc_info = (\<lambda>name. Inr [(''uuid'', PStr ''cb-1'')]),
      cb_get_portfolio = (\<lambda>vc_id. Inr [[(''name'', PStr ''Acme''), (''website'', PStr [])]]),
      cb_get_deals = (\<lambda>vc_id. Inr []),
      pb_get_vc_info = (\<lambda>name. Inr [(''uuid'', name)]),
      pb_get_portfolio = (\<lambda>vc_id.
        if vc_id = PStr ''First Fund''
        then Inr [[(''name'', PStr ''ACME''), (''website'', PStr ''one.com'')]]
        else Inr [[(''name'', PStr ''ACME''), (''website'', PStr ''two.com''),
                   (''founded'', PStr ''2021'')]]),
      pb_get_deals = (\<lambda>vc_id. Inr [])\<rparr>"

definition first_fund :: pyval where
  "first_fund = PDict [(''Name'', PStr ''First Fund'')]"

definition second_fund :: pyval where
  "second_fund = PDict [(''Name'', PStr ''Second Fund'')]"

section \<open>Properties of the company merge\<close>

lemma name_key_total: "has_str_name c \<Longrightarrow> \<exists>k. name_key c = Inr k"
  by (auto simp: has_str_name_def name_key_def dict_get_def split: option.splits pyval.splits)

lemma lower_Nil_iff: "lower s = [] \<longleftrightarrow> s = []"
  by (simp add: lower_def)

lemma name_key_field:
  "name_key r = Inr k \<Longrightarrow> k \<noteq> [] \<Longrightarrow> \<exists>s. map_of r ''name'' = Some (PStr s) \<and> s \<noteq> [] \<and> lower s = k"
  by (auto simp: name_key_def dict_get_def lower_def split: option.splits pyval.splits)

lemma name_key_of_field:
  "map_of r ''name'' = Some (PStr s) \<Longrightarrow> name_key r = Inr (lower s)"
  by (simp add: name_key_def dict_get_def)

lemma fill_gaps_keeps:
  "map_of t F = Some v \<Longrightarrow> truthy v \<Longrightarrow> map_of (fill_gaps t its) F = Some v"
proof (induction its arbitrary: t)
  case Nil
  then show ?case by simp
next
  case (Cons it its)
  obtain key val where it: "it = (key, val)" by (cases it)
  let ?t = "if truthy val \<and> falsy_or_missing t key then dict_set t key val else t"
  have "map_of ?t F = Some v"
    using Cons.prems by (auto simp: dict_set_def update_conv' falsy_or_missing_def)
  from Cons.IH [OF this Cons.prems(2)] show ?case using it by simp
qed

lemma fill_gaps_origin:
  "map_of (fill_gaps t its) G = Some w \<Longrightarrow>
     map_of t G = Some w \<or> (falsy_or_missing t G \<and> truthy w \<and> (G, w) \<in> set its)"
proof (induction its arbitrary: t)
  case Nil
  then show ?case by simp
next
  case (Cons it its)
  obtain key val where it: "it = (key, val)" by (cases it)
  let ?t = "if truthy val \<and> falsy_or_missing t key then dict_set t key val else t"
  from Cons.prems it have "map_of (fill_gaps ?t its) G = Some w" by simp
  from Cons.IH [OF this]
  show ?case using it
    by (auto simp: dict_set_def update_conv' falsy_or_missing_def split: if_splits option.splits)
qed

lemma fill_gaps_name_key:
  assumes "name_key r = Inr k" "k \<noteq> []"
  shows "name_key (fill_gaps r its) = Inr k"
proof -
  from name_key_field [OF assms] obtain s where
    s: "map_of r ''name'' = Some (PStr s)" "s \<noteq> []" "lower s = k" by blast
  then have "map_of (fill_gaps r its) ''name'' = Some (PStr s)"
    by (intro fill_gaps_keeps) simp_all
  with s show ?thesis by (simp add: name_key_of_field)
qed

lemma keyed_Nil: "keyed []" by (simp add: keyed_def)

lemma set_update_subset: "set (AList.update k v al) \<subseteq> insert (k, v) (set al)"
  by (induction al) auto

lemma keyed_set:
  "keyed m \<Longrightarrow> name_key r = Inr k \<Longrightarrow> k \<noteq> [] \<Longrightarrow> keyed (dict_set m k r)"
  using set_update_subset [of k r m]
  by (auto simp: keyed_def dict_set_def distinct_update)

lemma merge_cb_keyed: "keyed m \<Longrightarrow> merge_cb m A = Inr m' \<Longrightarrow> keyed m'"
proof (induction A arbitrary: m)
  case Nil
  then show ?case by simp
next
  case (Cons a A)
  from Cons.prems(2) obtain n where n: "name_key a = Inr n"
    by (auto split: sum.splits)
  let ?m = "if n \<noteq> [] then dict_set m n a else m"
  have "keyed ?m" using Cons.prems(1) n by (simp add: keyed_set)
  moreover have "merge_cb ?m A = Inr m'" using Cons.prems(2) n by simp
  ultimately show ?case by (rule Cons.IH)
qed

lemma keyed_lookup: "keyed m \<Longrightarrow> map_of m k = Some r \<Longrightarrow> name_key r = Inr k \<and> k \<noteq> []"
  by (auto simp: keyed_def dest!: map_of_SomeD)

lemma merge_pb_keyed: "keyed m \<Longrightarrow> merge_pb m B = Inr m' \<Longrightarrow> keyed m'"
proof (induction B arbitrary: m)
  case Nil
  then show ?case by simp
next
  case (Cons b B)
  from Cons.prems(2) obtain n where n: "name_key b = Inr n"
    by (auto split: sum.splits)
  let ?m = "if n = [] then m else case map_of m n of
        Some existing \<Rightarrow> dict_set m n (fill_gaps existing b) | None \<Rightarrow> dict_set m n b"
  have "keyed ?m"
  proof (cases "n = []")
    case True
    with Cons.prems(1) show ?thesis by simp
  next
    case False
    show ?thesis
    proof (cases "map_of m n")
      case None
      with False n Cons.prems(1) show ?thesis by (simp add: keyed_set)
    next
      case (Some existing)
      from keyed_lookup [OF Cons.prems(1) Some] have "name_key (fill_gaps existing b) = Inr n"
        by (simp add: fill_gaps_name_key)
      with False Some Cons.prems(1) show ?thesis by (simp add: keyed_set)
    qed
  qed
  moreover have "merge_pb ?m B = Inr m'"
    using Cons.prems(2) n by (auto split: option.splits)
  ultimately show ?case by (rule Cons.IH)
qed

lemma merge_cb_append:
  "merge_cb m (xs @ ys) = (case merge_cb m xs of Inl e \<Rightarrow> Inl e | Inr m1 \<Rightarrow> merge_cb m1 ys)"
  by (induction xs arbitrary: m) (auto split: sum.splits)

lemma merge_cb_other:
  "merge_cb m post = Inr m' \<Longrightarrow> \<forall>x\<in>set post. name_key x \<noteq> Inr k \<Longrightarrow> map_of m' k = map_of m k"
  by (induction post arbitrary: m)
     (auto simp: dict_set_def update_conv' split: sum.splits if_splits)

lemma merge_cb_last:
  assumes "merge_cb m (pre @ a # post) = Inr m'" "name_key a = Inr k" "k \<noteq> []"
    "\<forall>x\<in>set post. name_key x \<noteq> Inr k"
  shows "map_of m' k = Some a"
proof -
  from assms(1) obtain m1 where m1: "merge_cb m pre = Inr m1"
    and rest: "merge_cb (dict_set m1 k a) post = Inr m'"
    using assms(2,3) by (auto simp: merge_cb_append split: sum.splits)
  from merge_cb_other [OF rest assms(4)] show ?thesis
    by (simp add: dict_set_def update_conv')
qed

lemma merge_pb_record:
  "merge_pb m B = Inr m' \<Longrightarrow> map_of m k = Some r \<Longrightarrow>
   \<exists>r'. map_of m' k = Some r'
      \<and> (\<forall>F v. map_of r F = Some v \<and> truthy v \<longrightarrow> map_of r' F = Some v)
      \<and> (\<forall>G w. map_of r' G = Some w \<longrightarrow>
             map_of r G = Some w
           \<or> (falsy_or_missing r G \<and> truthy w \<and> (\<exists>b\<in>set B. name_key b = Inr k \<and> (G, w) \<in> set b)))"
proof (induction B arbitrary: m r)
  case Nil
  then show ?case by auto
next
  case (Cons b B)
  from Cons.prems(1) obtain n where n: "name_key b = Inr n"
    by (auto split: sum.splits)
  show ?case
  proof (cases "n = k")
    case False
    define m1 where "m1 = (if n = [] then m else case map_of m n of
        Some existing \<Rightarrow> dict_set m n (fill_gaps existing b) | None \<Rightarrow> dict_set m n b)"
    have step: "merge_pb m1 B = Inr m'" and look: "map_of m1 k = Some r"
      using Cons.prems n False
      by (auto simp: m1_def dict_set_def update_conv' split: option.splits)
    from Cons.IH [OF step look] show ?thesis by fastforce
  next
    case True
    have kne: "k \<noteq> [] \<or> k = []" by simp
    show ?thesis
    proof (cases "k = []")
      case True
      with Cons.prems n \<open>n = k\<close> have "merge_pb m B = Inr m'" by simp
      from Cons.IH [OF this Cons.prems(2)] show ?thesis by fastforce
    next
      case False
      let ?r1 = "fill_gaps r b"
      have step: "merge_pb (dict_set m k ?r1) B = Inr m'"
        using Cons.prems n \<open>n = k\<close> False by simp
      have look: "map_of (dict_set m k ?r1) k = Some ?r1"
        by (simp add: dict_set_def update_conv')
      from Cons.IH [OF step look] obtain r' where r': "map_of m' k = Some r'"
        and keep: "\<forall>F v. map_of ?r1 F = Some v \<and> truthy v \<longrightarrow> map_of r' F = Some v"
        and orig: "\<forall>G w. map_of r' G = Some w \<longrightarrow>
             map_of ?r1 G = Some w
           \<or> (falsy_or_missing ?r1 G \<and> truthy w \<and> (\<exists>b\<in>set B. name_key b = Inr k \<and> (G, w) \<in> set b))"
        by blast
      have k1: "\<forall>F v. map_of r F = Some v \<and> truthy v \<longrightarrow> map_of r' F = Some v"
        using keep fill_gaps_keeps by blast
      have gap: "falsy_or_missing r G" if "falsy_or_missing ?r1 G" for G
      proof (rule ccontr)
        assume "\<not> falsy_or_missing r G"
        then obtain v where "map_of r G = Some v" "truthy v"
          by (auto simp: falsy_or_missing_def split: option.splits)
        then have "map_of ?r1 G = Some v" by (rule fill_gaps_keeps)
        with \<open>truthy v\<close> that show False by (simp add: falsy_or_missing_def)
      qed
      have o1: "map_of r G = Some w
           \<or> (falsy_or_missing r G \<and> truthy w \<and> (\<exists>b'\<in>set (b # B). name_key b' = Inr k \<and> (G, w) \<in> set b'))"
        if "map_of r' G = Some w" for G w
      proof -
        from orig that have "map_of ?r1 G = Some w
           \<or> (falsy_or_missing ?r1 G \<and> truthy w \<and> (\<exists>b\<in>set B. name_key b = Inr k \<and> (G, w) \<in> set b))"
          by blast
        then show ?thesis
        proof
          assume "map_of ?r1 G = Some w"
          from fill_gaps_origin [OF this] show ?thesis using n \<open>n = k\<close> by auto
        next
          assume "falsy_or_missing ?r1 G \<and> truthy w \<and> (\<exists>b\<in>set B. name_key b = Inr k \<and> (G, w) \<in> set b)"
          then show ?thesis using gap by auto
        qed
      qed
      from r' k1 o1 show ?thesis by blast
    qed
  qed
qed

lemma merge_cb_total: "\<forall>c\<in>set A. has_str_name c \<Longrightarrow> \<exists>m'. merge_cb m A = Inr m'"
proof (induction A arbitrary: m)
  case Nil
  then show ?case by simp
next
  case (Cons a A)
  then obtain k where "name_key a = Inr k" using name_key_total by fastforce
  with Cons show ?case by simp
qed

lemma merge_pb_total: "\<forall>c\<in>set B. has_str_name c \<Longrightarrow> \<exists>m'. merge_pb m B = Inr m'"
proof (induction B arbitrary: m)
  case Nil
  then show ?case by simp
next
  case (Cons b B)
  then obtain k where "name_key b = Inr k" using name_key_total by fastforce
  with Cons show ?case by (simp split: option.splits)
qed

text \<open>
  C1 (company-merge precedence). Let the companies of both lists carry string names, let
  \<open>a\<close> be the record that list \<open>A\<close> contributes for the lower-cased name \<open>k\<close> (the last
  one of that name in \<open>A\<close>) and let \<open>B\<close> hold a record of the same name. Then the merge
  returns, its result holds exactly one record \<open>m\<close> of that name, every truthy field of
  \<open>a\<close> has the same value in \<open>m\<close>, and a field of \<open>m\<close> that differs from \<open>a\<close> is falsy or
  missing in \<open>a\<close> and holds a truthy value of a record of that name in \<open>B\<close>.
\<close>

theorem merge_company_precedence:
  assumes typed: "\<forall>c\<in>set (A @ B). has_str_name c"
    and A: "A = pre @ a # post" "name_key a = Inr k" "k \<noteq> []"
           "\<forall>x\<in>set post. name_key x \<noteq> Inr k"
    and B: "b \<in> set B" "name_key b = Inr k"
  shows "\<exists>M m. merge_company_data A B = Inr M \<and> m \<in> set M \<and> name_key m = Inr k
           \<and> (\<forall>m'\<in>set M. name_key m' = Inr k \<longrightarrow> m' = m)
           \<and> (\<forall>F v. map_of a F = Some v \<and> truthy v \<longrightarrow> map_of m F = Some v)
           \<and> (\<forall>F w. map_of m F = Some w \<and> map_of a F \<noteq> Some w \<longrightarrow>
                  falsy_or_missing a F \<and> truthy w
                  \<and> (\<exists>b'\<in>set B. name_key b' = Inr k \<and> (F, w) \<in> set b'))"
proof -
  from typed obtain m1 where m1: "merge_cb [] A = Inr m1"
    using merge_cb_total [of A "[]"] by auto
  from typed obtain m2 where m2: "merge_pb m1 B = Inr m2"
    using merge_pb_total [of B m1] by auto
  have res: "merge_company_data A B = Inr (map snd m2)"
    by (simp add: merge_company_data_def m1 m2)
  have k1: "keyed m1" using merge_cb_keyed [OF keyed_Nil m1] .
  have k2: "keyed m2" using merge_pb_keyed [OF k1 m2] .
  have la: "map_of m1 k = Some a"
    using merge_cb_last [OF m1 [unfolded A(1)] A(2,3,4)] .
  from merge_pb_record [OF m2 la] obtain m where m: "map_of m2 k = Some m"
    and keep: "\<forall>F v. map_of a F = Some v \<and> truthy v \<longrightarrow> map_of m F = Some v"
    and orig: "\<forall>G w. map_of m G = Some w \<longrightarrow>
             map_of a G = Some w
           \<or> (falsy_or_missing a G \<and> truthy w \<and> (\<exists>b\<in>set B. name_key b = Inr k \<and> (G, w) \<in> set b))"
    by blast
  have mem: "m \<in> set (map snd m2)"
    using map_of_SomeD [OF m] by force
  have nk: "name_key m = Inr k" using keyed_lookup [OF k2 m] by simp
  have uniq: "m' = m" if "m' \<in> set (map snd m2)" "name_key m' = Inr k" for m'
  proof -
    from that(1) obtain k' where in2: "(k', m') \<in> set m2" by auto
    with k2 have "name_key m' = Inr k'" by (auto simp: keyed_def)
    with that(2) have "k' = k" by simp
    with in2 k2 have "map_of m2 k = Some m'" by (simp add: keyed_def)
    with m show ?thesis by simp
  qed
  from res mem nk uniq keep orig show ?thesis by blast
qed

lemma acme_keys: "name_key acme_a = Inr ''acme''" "name_key acme_b = Inr ''acme''"
  by (simp_all add: acme_a_def acme_b_def name_key_def dict_get_def lower_def lower_char_def upper_letters_def lower_letters_def)

theorem merge_company_precedence_witness:
  "\<exists>M m. merge_company_data [acme_a] [acme_b] = Inr M \<and> m \<in> set M
      \<and> map_of m ''website'' = Some (PStr ''a.com'')"
proof -
  have t: "\<forall>c\<in>set ([acme_a] @ [acme_b]). has_str_name c"
    by (simp add: has_str_name_def acme_a_def acme_b_def)
  have w: "map_of acme_a ''website'' = Some (PStr ''a.com'') \<and> truthy (PStr ''a.com'')"
    by (simp add: acme_a_def)
  from merge_company_precedence [of "[acme_a]" "[acme_b]" "[]" acme_a "[]" "''acme''" acme_b, OF t]
    acme_keys w
  show ?thesis by fastforce
qed

lemma update_fresh: "k \<notin> fst ` set al \<Longrightarrow> AList.update k v al = al @ [(k, v)]"
  by (induction al) auto

lemma merge_cb_fresh:
  "\<forall>a\<in>set A. \<exists>k. name_key a = Inr k \<and> k \<noteq> [] \<and> k \<notin> fst ` set m \<Longrightarrow>
   distinct (map name_key A) \<Longrightarrow>
   merge_cb m A = Inr (m @ map (\<lambda>a. (the_key a, a)) A)"
proof (induction A arbitrary: m)
  case Nil
  then show ?case by simp
next
  case (Cons a A)
  from Cons.prems(1) obtain k where k: "name_key a = Inr k" "k \<noteq> []" "k \<notin> fst ` set m"
    by auto
  have step: "dict_set m k a = m @ [(k, a)]"
    using k(3) by (simp add: dict_set_def update_fresh)
  have fresh: "\<forall>x\<in>set A. \<exists>k'. name_key x = Inr k' \<and> k' \<noteq> [] \<and> k' \<notin> fst ` set (m @ [(k, a)])"
  proof
    fix x assume x: "x \<in> set A"
    with Cons.prems(1) obtain k' where k': "name_key x = Inr k'" "k' \<noteq> []" "k' \<notin> fst ` set m"
      by auto
    from Cons.prems(2) have "name_key a \<notin> name_key ` set A" by simp
    with x have "name_key x \<noteq> name_key a" by (metis imageI)
    with k k' have "k' \<noteq> k" by auto
    with k' show "\<exists>k'. name_key x = Inr k' \<and> k' \<noteq> [] \<and> k' \<notin> fst ` set (m @ [(k, a)])"
      by auto
  qed
  from Cons.prems(2) have "distinct (map name_key A)" by simp
  from Cons.IH [OF fresh this] show ?case
    using k step by (simp add: the_key_def)
qed

text \<open>
  C6 (empty right operand), as the code has it: when every record of \<open>A\<close> has a non-empty
  string name and no two names of \<open>A\<close> agree up to case, merging \<open>A\<close> with the empty list
  returns \<open>A\<close> itself, the same records in the same order.
\<close>

theorem merge_empty_right_identity:
  assumes "\<forall>a\<in>set A. \<exists>k. name_key a = Inr k \<and> k \<noteq> []"
    and "distinct (map name_key A)"
  shows "merge_company_data A [] = Inr A"
proof -
  from assms(1) have "\<forall>a\<in>set A. \<exists>k. name_key a = Inr k \<and> k \<noteq> [] \<and> k \<notin> fst ` set ([] :: (string \<times> pydict) list)"
    by simp
  from merge_cb_fresh [OF this assms(2)]
  show ?thesis by (simp add: merge_company_data_def comp_def)
qed

text \<open>
  Without that restriction the merge is not the identity: two records of \<open>A\<close> whose names
  differ only in case share a key, and the later one replaces the earlier.
\<close>

theorem merge_empty_right_counterexample:
  "merge_company_data [acme_a, acme_lower] [] \<noteq> Inr [acme_a, acme_lower]"
  by (simp add: merge_company_data_def acme_a_def acme_lower_def name_key_def dict_get_def
        lower_def lower_char_def upper_letters_def lower_letters_def dict_set_def)

theorem merge_empty_right_identity_witness:
  "distinct (map name_key [acme_a, beta_co])
   \<and> merge_company_data [acme_a, beta_co] [] = Inr [acme_a, beta_co]"
proof -
  have k: "name_key acme_a = Inr ''acme''" "name_key beta_co = Inr ''beta''"
    by (simp_all add: acme_a_def beta_co_def name_key_def dict_get_def lower_def lower_char_def upper_letters_def lower_letters_def)
  have h1: "\<forall>a\<in>set [acme_a, beta_co]. \<exists>k. name_key a = Inr k \<and> k \<noteq> []"
    using k by simp
  have h2: "distinct (map name_key [acme_a, beta_co])" using k by simp
  from h2 merge_empty_right_identity [OF h1 h2] show ?thesis by blast
qed

section \<open>Properties of the thesis derivation\<close>

lemma str_or_absent_get:
  "str_or_absent d key \<Longrightarrow> \<exists>s. dict_get d key (PStr dflt) = PStr s"
  by (auto simp: str_or_absent_def dict_get_def split: option.splits pyval.splits)

lemma has_str_name_get: "has_str_name c \<Longrightarrow> \<exists>s. dict_get c ''name'' (PStr []) = PStr s"
  by (auto simp: has_str_name_def dict_get_def split: option.splits pyval.splits)

lemma strs_of_strings:
  "\<forall>v\<in>set vs. \<exists>s. v = PStr s \<Longrightarrow> \<exists>ss. strs_of vs = Inr ss \<and> length ss = length vs"
proof (induction vs)
  case Nil
  then show ?case by simp
next
  case (Cons v vs)
  then obtain s where "v = PStr s" by auto
  moreover from Cons obtain ss where "strs_of vs = Inr ss" "length ss = length vs" by auto
  ultimately show ?case by simp
qed

lemma sample_companies_strings:
  assumes "\<forall>c\<in>set pf. has_str_name c"
  shows "\<exists>names. strs_of (sample_companies pf) = Inr names \<and> length names \<le> 3"
proof -
  have "\<forall>v\<in>set (sample_companies pf). \<exists>s. v = PStr s"
    using assms has_str_name_get
    by (auto simp: sample_companies_def dest!: in_set_takeD)
  from strs_of_strings [OF this] obtain ss where
    ss: "strs_of (sample_companies pf) = Inr ss" "length ss = length (sample_companies pf)"
    by blast
  have "length (sample_companies pf) \<le> length (take 3 pf)"
    unfolding sample_companies_def by (simp del: length_take)
  then have "length (sample_companies pf) \<le> 3" by simp
  with ss show ?thesis by auto
qed

lemma pattern_sentence_take: "pattern_sentence (take 3 sectors) stages = pattern_sentence sectors stages"
  by (cases sectors) (simp_all add: pattern_sentence_def)

text \<open>
  C2 (investment thesis), as the code derives it. The description considered is the
  Crunchbase one when it is non-empty, the PitchBook one otherwise. With string
  descriptions and string company names, the thesis is that description after
  \<open>Thesis: \<close> when it is longer than 20 characters; otherwise it is \<open>Pattern: \<close> followed
  by the sentence built from the first three sectors and the stages and, when the
  portfolio has at least three companies, by the names of those of its first three that
  have one.
\<close>

theorem thesis_derivation:
  assumes "str_or_absent cb ''description''" "str_or_absent pb ''description''"
    and "\<forall>c\<in>set pf. has_str_name c"
  shows "\<exists>s names.
           py_or (dict_get cb ''description'' (PStr [])) (dict_get pb ''description'' (PStr [])) = PStr s
         \<and> strs_of (sample_companies pf) = Inr names \<and> length names \<le> 3
         \<and> derive_investment_thesis cb pb sectors stages pf =
             (if length s > 20 then Inr (''Thesis: '' @ s)
              else Inr (''Pattern: '' @ pattern_sentence (take 3 sectors) stages
                        @ (if names = [] then []
                           else '' Portfolio includes '' @ join '', '' names @ ''.'')))"
proof -
  from str_or_absent_get [OF assms(1)] obtain a where a: "dict_get cb ''description'' (PStr []) = PStr a"
    by blast
  from str_or_absent_get [OF assms(2)] obtain b where b: "dict_get pb ''description'' (PStr []) = PStr b"
    by blast
  define s where "s = (if a \<noteq> [] then a else b)"
  have d: "py_or (dict_get cb ''description'' (PStr [])) (dict_get pb ''description'' (PStr [])) = PStr s"
    by (simp add: a b py_or_def s_def)
  from sample_companies_strings [OF assms(3)] obtain names where
    n: "strs_of (sample_companies pf) = Inr names" "length names \<le> 3" by blast
  have e: "sample_companies pf = [] \<longleftrightarrow> names = []"
    using n(1) by (cases "sample_companies pf") (auto split: sum.splits pyval.splits elim: strs_of.elims)
  have "derive_investment_thesis cb pb sectors stages pf =
             (if length s > 20 then Inr (''Thesis: '' @ s)
              else Inr (''Pattern: '' @ pattern_sentence (take 3 sectors) stages
                        @ (if names = [] then []
                           else '' Portfolio includes '' @ join '', '' names @ ''.'')))"
    unfolding derive_investment_thesis_def d Let_def
    by (auto simp: py_len_def py_str_def py_join_def n e pattern_sentence_take)
  with d n show ?thesis by blast
qed

text \<open>
  A long description of the second source alone does not give a \<open>Thesis: \<close> text: a short,
  non-empty description of the first source is the one considered.
\<close>

theorem thesis_either_counterexample:
  "dict_get long_pb_info ''description'' (PStr []) =
     PStr ''A venture capital firm with a focus on enterprise technology and fintech.''
   \<and> length ''A venture capital firm with a focus on enterprise technology and fintech.'' > 20
   \<and> derive_investment_thesis short_cb_info long_pb_info [] [] [] =
       Inr ''Pattern: General investment approach across various sectors and stages.''"
  by (simp add: derive_investment_thesis_def short_cb_info_def long_pb_info_def dict_get_def
        py_or_def py_len_def pattern_sentence_def sample_companies_def)

theorem thesis_derivation_witness:
  "derive_investment_thesis [] long_pb_info [''Fintech''] [''Seed''] [] =
     Inr ''Thesis: A venture capital firm with a focus on enterprise technology and fintech.''
   \<and> derive_investment_thesis short_cb_info [] [''Fintech'', ''SaaS'', ''AI'', ''Crypto''] [''Seed'']
       [acme_a, acme_b, beta_co] =
     Inr ''Pattern: Invests in Fintech, SaaS, AI at Seed stages. Portfolio includes Acme, Acme, Beta.''"
proof -
  have h: "str_or_absent [] ''description''" "str_or_absent long_pb_info ''description''"
    "\<forall>c\<in>set ([] :: pydict list). has_str_name c"
    by (simp_all add: str_or_absent_def long_pb_info_def)
  have d: "py_or (dict_get [] ''description'' (PStr [])) (dict_get long_pb_info ''description'' (PStr []))
      = PStr ''A venture capital firm with a focus on enterprise technology and fintech.''"
    by (simp add: py_or_def dict_get_def long_pb_info_def)
  from thesis_derivation [OF h, of "[''Fintech'']" "[''Seed'']"] d
  have a: "derive_investment_thesis [] long_pb_info [''Fintech''] [''Seed''] [] =
     Inr ''Thesis: A venture capital firm with a focus on enterprise technology and fintech.''"
    by auto
  have h2: "str_or_absent short_cb_info ''description''" "str_or_absent [] ''description''"
    "\<forall>c\<in>set [acme_a, acme_b, beta_co]. has_str_name c"
    by (simp_all add: str_or_absent_def short_cb_info_def has_str_name_def acme_a_def acme_b_def
        beta_co_def)
  have d2: "py_or (dict_get short_cb_info ''description'' (PStr [])) (dict_get [] ''description'' (PStr []))
      = PStr ''Seed fund''"
    by (simp add: py_or_def dict_get_def short_cb_info_def)
  have n2: "strs_of (sample_companies [acme_a, acme_b, beta_co]) = Inr [''Acme'', ''Acme'', ''Beta'']"
    by (simp add: sample_companies_def acme_a_def acme_b_def beta_co_def dict_get_def)
  from thesis_derivation [OF h2, of "[''Fintech'', ''SaaS'', ''AI'', ''Crypto'']" "[''Seed'']"] d2 n2
  have b: "derive_investment_thesis short_cb_info [] [''Fintech'', ''SaaS'', ''AI'', ''Crypto''] [''Seed'']
       [acme_a, acme_b, beta_co] =
     Inr ''Pattern: Invests in Fintech, SaaS, AI at Seed stages. Portfolio includes Acme, Acme, Beta.''"
    by (auto simp: pattern_sentence_def)
  from a b show ?thesis by blast
qed

section \<open>Properties of rounding\<close>

lemma rhe_lower: "\<lfloor>x\<rfloor> \<le> rhe x"
  by (simp add: rhe_def Let_def)

lemma rhe_upper: "rhe x \<le> \<lfloor>x\<rfloor> + 1"
  by (simp add: rhe_def Let_def)

lemma rhe_mono: "x \<le> y \<Longrightarrow> rhe x \<le> rhe y"
proof -
  assume xy: "x \<le> y"
  then have fl: "\<lfloor>x\<rfloor> \<le> \<lfloor>y\<rfloor>" by (rule floor_mono)
  show ?thesis
  proof (cases "\<lfloor>x\<rfloor> = \<lfloor>y\<rfloor>")
    case True
    with xy show ?thesis by (auto simp: rhe_def Let_def)
  next
    case False
    with fl have "\<lfloor>x\<rfloor> + 1 \<le> \<lfloor>y\<rfloor>" by simp
    with rhe_upper [of x] rhe_lower [of y] show ?thesis by linarith
  qed
qed

lemma rhe_of_int [simp]: "rhe (of_int n) = n"
  by (simp add: rhe_def)

lemma rhe_nonneg: "0 \<le> x \<Longrightarrow> 0 \<le> rhe x"
  using rhe_mono [of 0 x] rhe_of_int [of 0] by simp

lemma rhe_near: "\<bar>of_int (rhe x) - x\<bar> \<le> 1 / 2"
proof -
  have "of_int \<lfloor>x\<rfloor> \<le> x" "x < of_int \<lfloor>x\<rfloor> + 1" by linarith+
  then show ?thesis by (auto simp: rhe_def Let_def abs_le_iff)
qed


lemma bitlen_rat_bounds:
  assumes "0 < (p::int)"
  shows "2 powi (bitlen p - 1) \<le> (of_int p :: rat)" "(of_int p :: rat) < 2 powi bitlen p"
proof -
  from assms have b1: "1 \<le> bitlen p" by (auto simp: bitlen_alt_def)
  from bitlen_bounds [OF assms] have lo: "2 ^ nat (bitlen p - 1) \<le> p" and hi: "p < 2 ^ nat (bitlen p)"
    by auto
  from lo have "(of_int (2 ^ nat (bitlen p - 1)) :: rat) \<le> of_int p" by (simp only: of_int_le_iff)
  then show "2 powi (bitlen p - 1) \<le> (of_int p :: rat)"
    using b1 by (simp add: power_int_def)
  from hi have "(of_int p :: rat) < of_int (2 ^ nat (bitlen p))" by (simp only: of_int_less_iff)
  then show "(of_int p :: rat) < 2 powi bitlen p"
    using b1 by (simp add: power_int_def)
qed

lemma expo_bounds:
  assumes "0 < x"
  shows "2 powi expo x \<le> x" and "x < 2 powi (expo x + 1)"
proof -
  obtain p q where pq: "quotient_of x = (p, q)" by (cases "quotient_of x")
  then have q: "0 < q" and x: "x = of_int p / of_int q"
    by (auto dest: quotient_of_denom_pos quotient_of_div)
  from assms q x have p: "0 < p" by (simp add: zero_less_divide_iff)
  define d where "d = bitlen p - bitlen q"
  have qr: "(0::rat) < of_int q" using q by simp
  have "x < 2 powi bitlen p / 2 powi (bitlen q - 1)"
  proof -
    have "x < 2 powi bitlen p / of_int q"
      unfolding x using bitlen_rat_bounds(2) [OF p] qr by (simp add: divide_strict_right_mono)
    also have "\<dots> \<le> 2 powi bitlen p / 2 powi (bitlen q - 1)"
      using bitlen_rat_bounds(1) [OF q] qr by (intro divide_left_mono) (simp_all add: zero_less_mult_iff)
    finally show ?thesis .
  qed
  then have up: "x < 2 powi (d + 1)"
    by (simp add: d_def power_int_diff power_int_add)
  have "2 powi (bitlen p - 1) / 2 powi bitlen q < x"
  proof -
    have "2 powi (bitlen p - 1) / 2 powi bitlen q < 2 powi (bitlen p - 1) / (of_int q :: rat)"
      using bitlen_rat_bounds(2) [OF q] qr by (intro divide_strict_left_mono) simp_all
    also have "\<dots> \<le> x"
      unfolding x using bitlen_rat_bounds(1) [OF p] qr by (simp add: divide_right_mono)
    finally show ?thesis .
  qed
  then have lo: "2 powi (d - 1) < x"
    by (simp add: d_def power_int_diff power_int_add)
  have e: "expo x = (if 2 powi d \<le> x then d else d - 1)"
    by (simp add: expo_def pq d_def)
  show "2 powi expo x \<le> x" using lo by (simp add: e)
  show "x < 2 powi (expo x + 1)" using up by (auto simp: e)
qed

lemma powi_two_less: "(2::rat) powi a < 2 powi b \<Longrightarrow> a < b"
proof (rule ccontr)
  assume lt: "(2::rat) powi a < 2 powi b" and "\<not> a < b"
  then have "b \<le> a" by simp
  then have "(2::rat) powi b \<le> 2 powi a" by (rule power_int_increasing) simp
  with lt show False by simp
qed

lemma expo_unique:
  assumes "2 powi e \<le> x" "x < 2 powi (e + 1)"
  shows "expo x = e"
proof -
  have "(0::rat) < 2 powi e" by (simp add: zero_less_power_int)
  with assms(1) have pos: "0 < x" by linarith
  from expo_bounds [OF pos] assms
  have a: "(2::rat) powi e < 2 powi (expo x + 1)" and b: "(2::rat) powi expo x < 2 powi (e + 1)"
    by linarith+
  have "e < expo x + 1" using a by (rule powi_two_less)
  moreover have "expo x < e + 1" using b by (rule powi_two_less)
  ultimately show ?thesis by simp
qed

lemma expo_mono:
  assumes "0 < x" "x \<le> y"
  shows "expo x \<le> expo y"
proof -
  from assms have "0 < y" by simp
  from expo_bounds(1) [OF assms(1)] expo_bounds(2) [OF this] assms(2)
  have "(2::rat) powi expo x < 2 powi (expo y + 1)" by linarith
  then have "expo x < expo y + 1"
    by (rule powi_two_less)
  then show ?thesis by simp
qed

lemma powi_two_pos [simp]: "(0::rat) < 2 powi k"
  by (simp add: zero_less_power_int)

lemma powi_two_int: "0 \<le> k \<Longrightarrow> (2::rat) powi k = of_int (2 ^ nat k)"
  by (simp add: power_int_def)

lemma rhe_powi_two: "0 \<le> k \<Longrightarrow> of_int (rhe (2 powi k)) = (2::rat) powi k"
  by (simp only: powi_two_int rhe_of_int)

lemma fl_zero [simp]: "fl 0 = 0"
  by (simp add: fl_def)

lemma fl_nonneg: "0 \<le> x \<Longrightarrow> 0 \<le> fl x"
proof -
  assume "0 \<le> x"
  then have "0 \<le> x / 2 powi quantum x" by simp
  then have "0 \<le> rhe (x / 2 powi quantum x)" by (rule rhe_nonneg)
  then show ?thesis by (simp add: fl_def)
qed

lemma quantum_mono:
  assumes "0 < x" "x \<le> y"
  shows "quantum x \<le> quantum y"
  using expo_mono [OF assms] assms by (simp add: quantum_def)

lemma fl_exact:
  assumes n: "0 < n" "n < 2 ^ 53" and i: "- 1074 \<le> i"
  shows "fl (of_int n * 2 powi i) = of_int n * 2 powi i"
proof -
  define x :: rat where "x = of_int n * 2 powi i"
  have xpos: "0 < x" using n by (simp add: x_def)
  have "x < 2 ^ 53 * 2 powi i"
  proof -
    from n(2) have "(of_int n :: rat) < of_int (2 ^ 53)" by (simp only: of_int_less_iff)
    then show ?thesis by (simp add: x_def)
  qed
  also have "\<dots> = 2 powi (53 + i)" by (simp add: power_int_add)
  finally have "x < 2 powi (53 + i)" .
  with expo_bounds(1) [OF xpos] have "(2::rat) powi expo x < 2 powi (53 + i)" by linarith
  then have "expo x < 53 + i"
    by (rule powi_two_less)
  then have q: "quantum x \<le> i" using i xpos by (simp add: quantum_def)
  have "x / 2 powi quantum x = of_int n * 2 powi (i - quantum x)"
    by (simp add: x_def power_int_diff)
  also have "\<dots> = of_int (n * 2 ^ nat (i - quantum x))"
    using q by (simp add: powi_two_int)
  finally have "of_int (rhe (x / 2 powi quantum x)) = x / 2 powi quantum x"
    by (simp only: rhe_of_int)
  then have "fl x = x" using xpos by (simp add: fl_def)
  then show ?thesis by (simp add: x_def)
qed

lemma fl_mono:
  assumes "0 \<le> x" "x \<le> y"
  shows "fl x \<le> fl y"
proof (cases "x = 0")
  case True
  with assms fl_nonneg [of y] show ?thesis by simp
next
  case False
  with assms have xpos: "0 < x" and ypos: "0 < y" by simp_all
  have qm: "quantum x \<le> quantum y" using quantum_mono [OF xpos assms(2)] .
  show ?thesis
  proof (cases "quantum x = quantum y")
    case True
    have "x / 2 powi quantum y \<le> y / 2 powi quantum y"
      using assms(2) by (simp add: divide_right_mono)
    then have "rhe (x / 2 powi quantum y) \<le> rhe (y / 2 powi quantum y)" by (rule rhe_mono)
    then have "(of_int (rhe (x / 2 powi quantum y)) :: rat) \<le> of_int (rhe (y / 2 powi quantum y))"
      by simp
    then show ?thesis using xpos ypos True by (simp add: fl_def)
  next
    case False
    with qm have lt: "quantum x < quantum y" by simp
    define E where "E = expo y"
    have ax: "\<bar>x\<bar> = x" and ay: "\<bar>y\<bar> = y" using xpos ypos by simp_all
    have qy: "quantum y = E - 52" using lt by (auto simp: quantum_def E_def ay max_def split: if_splits)
    have ex: "expo x + 1 \<le> E"
      using lt expo_mono [OF xpos assms(2)] by (auto simp: quantum_def E_def ax ay max_def split: if_splits)
    have dx: "0 \<le> E - quantum x" using lt qy by simp
    have "x < 2 powi (expo x + 1)" using expo_bounds(2) [OF xpos] .
    also have "\<dots> \<le> 2 powi E" using ex by (intro power_int_increasing) simp_all
    finally have "x / 2 powi quantum x \<le> 2 powi E / 2 powi quantum x"
      by (simp add: divide_right_mono)
    also have "\<dots> = 2 powi (E - quantum x)" by (simp add: power_int_diff)
    finally have "rhe (x / 2 powi quantum x) \<le> rhe (2 powi (E - quantum x))" by (rule rhe_mono)
    then have "(of_int (rhe (x / 2 powi quantum x)) :: rat) \<le> of_int (rhe (2 powi (E - quantum x)))"
      by simp
    also have "\<dots> = 2 powi (E - quantum x)" using dx by (rule rhe_powi_two)
    finally have "fl x \<le> 2 powi (E - quantum x) * 2 powi quantum x"
      using xpos by (simp add: fl_def)
    also have "\<dots> = 2 powi E" by (simp flip: power_int_add)
    finally have upper: "fl x \<le> 2 powi E" .
    have "2 powi E \<le> y" unfolding E_def using expo_bounds(1) [OF ypos] .
    then have "2 powi E / 2 powi quantum y \<le> y / 2 powi quantum y"
      by (simp add: divide_right_mono)
    then have "rhe (2 powi E / 2 powi quantum y) \<le> rhe (y / 2 powi quantum y)" by (rule rhe_mono)
    moreover have "2 powi E / 2 powi quantum y = (2::rat) powi 52"
      by (simp add: qy power_int_diff)
    ultimately have "rhe (2 powi 52) \<le> rhe (y / 2 powi quantum y)" by simp
    then have "(of_int (rhe (2 powi 52)) :: rat) \<le> of_int (rhe (y / 2 powi quantum y))"
      by (simp only: of_int_le_iff)
    moreover have "(of_int (rhe (2 powi 52)) :: rat) = 2 powi 52" by (rule rhe_powi_two) simp
    ultimately have "(2::rat) powi 52 * 2 powi quantum y \<le> fl y"
      using ypos by (simp add: fl_def)
    moreover have "(2::rat) powi 52 * 2 powi quantum y = 2 powi E"
      unfolding qy using power_int_add [of "2::rat" 52 "E - 52"] by simp
    ultimately have "2 powi E \<le> fl y" by simp
    with upper show ?thesis by simp
  qed
qed

section \<open>Properties of the check range and of the lead ratio\<close>

lemma collect_amounts_ok:
  "\<forall>d\<in>set deals. amount_ok bound d \<Longrightarrow> collect_amounts deals = Inr (positive_amounts deals)"
proof (induction deals)
  case Nil
  then show ?case by (simp add: positive_amounts_def)
next
  case (Cons d deals)
  then have ih: "collect_amounts deals = Inr (positive_amounts deals)" by simp
  from Cons.prems have "amount_ok bound d" by simp
  then show ?case
    by (auto simp: ih positive_amounts_def amount_ok_def amount_value_def positive_amount_def
        split: pyval.splits)
qed

lemma positive_amounts_bound:
  "\<forall>d\<in>set deals. amount_ok bound d \<Longrightarrow> 1 < bound \<Longrightarrow> a \<in> set (positive_amounts deals) \<Longrightarrow> 0 < a \<and> a < bound"
  by (auto simp: positive_amounts_def amount_ok_def amount_value_def split: pyval.splits)

lemma no_overflow:
  assumes "0 \<le> r" "r \<le> 2 ^ 1023"
  shows "\<not> overflows r"
proof (cases "r = 0")
  case True
  have "expo 0 = - 2" by code_simp
  with True show ?thesis by (simp add: overflows_def)
next
  case False
  with assms have pos: "0 < r" by simp
  have "2 powi expo r \<le> r" using expo_bounds(1) [OF pos] .
  also have "r < 2 powi 1024" using assms(2) by simp
  finally have "expo r < 1024" by (rule powi_two_less)
  with pos show ?thesis by (simp add: overflows_def)
qed

lemma truediv_pos:
  assumes "0 \<le> a" "a \<le> 2 ^ 1023" "1 \<le> b"
  shows "\<exists>r. py_truediv a b = Inr r \<and> r = fl (a / b) \<and> 0 \<le> r"
proof -
  have "a / b \<le> a" using assms by (simp add: divide_le_eq mult_left_mono mult_le_cancel_left1)
  then have "a / b \<le> 2 ^ 1023" using assms(2) by simp
  moreover have "0 \<le> a / b" using assms by simp
  ultimately have "fl (a / b) \<le> fl (2 ^ 1023)" by (intro fl_mono)
  also have "fl (2 ^ 1023) = 2 ^ 1023"
    using fl_exact [of 1 1023] by simp
  finally have "fl (a / b) \<le> 2 ^ 1023" .
  moreover have nn: "0 \<le> fl (a / b)" using \<open>0 \<le> a / b\<close> by (rule fl_nonneg)
  ultimately have "\<not> overflows (fl (a / b))" by (intro no_overflow)
  then show ?thesis using assms(3) nn by (simp add: py_truediv_def Let_def)
qed

text \<open>
  C10 (check range). For deals whose amounts are absent, empty, booleans or integers
  below \<open>10 ^ 15\<close>, the calculation returns a pair \<open>(lo, hi)\<close> of integers with
  \<open>0 \<le> lo \<le> hi\<close>, both multiples of 50, and \<open>(0, 0)\<close> when no amount is positive.
\<close>

theorem check_range_well_formed:
  assumes ok: "\<forall>d\<in>set deals. amount_ok (10 ^ 15) d"
  shows "\<exists>lo hi. calculate_check_range deals = Inr (lo, hi)
           \<and> 0 \<le> lo \<and> lo \<le> hi \<and> 50 dvd lo \<and> 50 dvd hi
           \<and> (positive_amounts deals = [] \<longrightarrow> lo = 0 \<and> hi = 0)"
proof (cases "positive_amounts deals = []")
  case True
  then show ?thesis by (simp add: calculate_check_range_def collect_amounts_ok [OF ok])
next
  case False
  define A where "A = positive_amounts deals"
  have ne: "set A \<noteq> {}" and fin: "finite (set A)" using False by (simp_all add: A_def)
  have bnd: "0 < a \<and> a < 10 ^ 15" if "a \<in> set A" for a
    using positive_amounts_bound [OF ok _ that [unfolded A_def]] by simp
  have mn: "Min (set A) \<in> set A" and mx: "Max (set A) \<in> set A"
    using ne fin by (simp_all add: Min_in Max_in)
  have le: "Min (set A) \<le> Max (set A)" using ne fin by (simp add: Min_le mx)
  have big: "(10::rat) ^ 15 \<le> 2 ^ 1023" by simp
  have r: "0 \<le> (of_int a :: rat) \<and> (of_int a :: rat) \<le> 2 ^ 1023" if "a \<in> set A" for a
  proof -
    from bnd [OF that] have "0 < a" "a < 10 ^ 15" by simp_all
    then have "(of_int a :: rat) < of_int (10 ^ 15)" by (simp only: of_int_less_iff)
    with big \<open>0 < a\<close> show ?thesis by simp
  qed
  from truediv_pos [of "of_int (Min (set A))" 1000] r [OF mn]
  obtain r1 where r1: "py_truediv (of_int (Min (set A))) 1000 = Inr r1"
    "r1 = fl (of_int (Min (set A)) / 1000)" "0 \<le> r1" by auto
  from truediv_pos [of "of_int (Max (set A))" 1000] r [OF mx]
  obtain r2 where r2: "py_truediv (of_int (Max (set A))) 1000 = Inr r2"
    "r2 = fl (of_int (Max (set A)) / 1000)" "0 \<le> r2" by auto
  have "(of_int (Min (set A)) :: rat) / 1000 \<le> of_int (Max (set A)) / 1000"
    using le by (simp add: divide_right_mono)
  moreover have "0 \<le> (of_int (Min (set A)) :: rat) / 1000" using r [OF mn] by simp
  ultimately have r12: "r1 \<le> r2" unfolding r1(2) r2(2) by (intro fl_mono)
  have "fl (r1 / 50) \<le> fl (r2 / 50)"
    using r12 r1(3) by (intro fl_mono) (simp_all add: divide_right_mono)
  then have lh: "rhe (fl (r1 / 50)) \<le> rhe (fl (r2 / 50))" by (rule rhe_mono)
  have "0 \<le> fl (r1 / 50)" using r1(3) by (intro fl_nonneg) simp
  then have nn: "0 \<le> rhe (fl (r1 / 50))" by (rule rhe_nonneg)
  have "calculate_check_range deals = Inr (rhe (fl (r1 / 50)) * 50, rhe (fl (r2 / 50)) * 50)"
    using False by (simp add: calculate_check_range_def collect_amounts_ok [OF ok] A_def [symmetric] r1(1) r2(1))
  with lh nn False show ?thesis by simp
qed

theorem check_range_well_formed_witness:
  "(\<exists>lo hi. calculate_check_range deals_750k_2500k = Inr (lo, hi) \<and> 0 \<le> lo \<and> lo \<le> hi
      \<and> 50 dvd lo \<and> 50 dvd hi)
   \<and> calculate_check_range [[(''company'', PStr ''Gamma''), (''amount'', PInt 0)]] = Inr (0, 0)"
proof -
  have "\<forall>d\<in>set deals_750k_2500k. amount_ok (10 ^ 15) d"
    by (simp add: deals_750k_2500k_def amount_ok_def dict_get_def)
  from check_range_well_formed [OF this]
  have a: "\<exists>lo hi. calculate_check_range deals_750k_2500k = Inr (lo, hi) \<and> 0 \<le> lo \<and> lo \<le> hi
      \<and> 50 dvd lo \<and> 50 dvd hi" by blast
  let ?d = "[[(''company'', PStr ''Gamma''), (''amount'', PInt 0)]]"
  have ok: "\<forall>d\<in>set ?d. amount_ok (10 ^ 15) d" by (simp add: amount_ok_def dict_get_def)
  have none: "positive_amounts ?d = []"
    by (simp add: positive_amounts_def amount_value_def dict_get_def)
  from check_range_well_formed [OF ok] none
  have b: "calculate_check_range ?d = Inr (0, 0)" by auto
  from a b show ?thesis by blast
qed

lemma lead_count_le: "lead_count deals \<le> length deals"
  by (simp add: lead_count_def)

lemma fl_seven_tenths_gap: "fl (7 / 10 - 1 / (10 * 10 ^ 12)) < fl (7 / 10)"
  by code_simp

lemma fl_three_tenths_gap: "fl (3 / 10) < fl (3 / 10 + 1 / (10 * 10 ^ 12))"
  by code_simp

lemma ratio_below:
  fixes l t :: nat
  assumes "0 < t" "t \<le> 10 ^ 12" "10 * l + 1 \<le> c * t"
  shows "(of_nat l :: rat) / of_nat t \<le> of_nat c / 10 - 1 / (10 * 10 ^ 12)"
proof -
  have tpos: "(0::rat) < of_nat t" using assms(1) by simp
  have "(of_nat (10 * l + 1) :: rat) \<le> of_nat (c * t)" using assms(3) by (simp only: of_nat_le_iff)
  then have "(10 * of_nat l + 1 :: rat) \<le> of_nat c * of_nat t" by simp
  then have "(of_nat l :: rat) \<le> (of_nat c * of_nat t - 1) / 10" by simp
  then have "(of_nat l :: rat) / of_nat t \<le> ((of_nat c * of_nat t - 1) / 10) / of_nat t"
    using tpos by (intro divide_right_mono) simp_all
  also have "\<dots> = of_nat c / 10 - 1 / (10 * of_nat t)"
    using tpos by (simp add: field_simps)
  also have "\<dots> \<le> of_nat c / 10 - 1 / (10 * 10 ^ 12)"
  proof -
    have "(of_nat t :: rat) \<le> of_nat (10 ^ 12)" using assms(2) by (simp only: of_nat_le_iff)
    then have "(of_nat t :: rat) \<le> 10 ^ 12" by simp
    then have "1 / (10 * 10 ^ 12) \<le> 1 / (10 * (of_nat t :: rat))"
      using tpos by (intro divide_left_mono) simp_all
    then show ?thesis by simp
  qed
  finally show ?thesis .
qed

lemma ratio_above:
  fixes l t :: nat
  assumes "0 < t" "t \<le> 10 ^ 12" "c * t + 1 \<le> 10 * l"
  shows "of_nat c / 10 + 1 / (10 * 10 ^ 12) \<le> (of_nat l :: rat) / of_nat t"
proof -
  have tpos: "(0::rat) < of_nat t" using assms(1) by simp
  have "(of_nat (c * t + 1) :: rat) \<le> of_nat (10 * l)" using assms(3) by (simp only: of_nat_le_iff)
  then have "(of_nat c * of_nat t + 1 :: rat) \<le> 10 * of_nat l" by simp
  then have "((of_nat c * of_nat t + 1) / 10 :: rat) \<le> of_nat l" by simp
  then have "((of_nat c * of_nat t + 1) / 10) / of_nat t \<le> (of_nat l :: rat) / of_nat t"
    using tpos by (intro divide_right_mono) simp_all
  moreover have "((of_nat c * of_nat t + 1) / 10) / of_nat t = of_nat c / 10 + 1 / (10 * (of_nat t :: rat))"
    using tpos by (simp add: field_simps)
  moreover have "of_nat c / 10 + 1 / (10 * 10 ^ 12) \<le> of_nat c / 10 + 1 / (10 * (of_nat t :: rat))"
  proof -
    have "(of_nat t :: rat) \<le> of_nat (10 ^ 12)" using assms(2) by (simp only: of_nat_le_iff)
    then have "(of_nat t :: rat) \<le> 10 ^ 12" by simp
    then have "1 / (10 * 10 ^ 12) \<le> 1 / (10 * (of_nat t :: rat))"
      using tpos by (intro divide_left_mono) simp_all
    then show ?thesis by simp
  qed
  ultimately show ?thesis by simp
qed

text \<open>
  C5 (lead or follow). For up to \<open>10 ^ 12\<close> deals, with \<open>l\<close> the number of deals whose
  \<open>is_lead\<close> is truthy and \<open>t\<close> the number of deals, the floating-point comparison of
  \<open>l / t\<close> with 0.7 and 0.3 decides exactly as the fractions do: \<open>Unknown\<close> for no deal,
  \<open>Lead\<close> when \<open>l / t \<ge> 7 / 10\<close>, \<open>Follow\<close> when \<open>l / t \<le> 3 / 10\<close>, \<open>Both\<close> otherwise.
\<close>

theorem lead_follow_thresholds:
  assumes "length deals \<le> 10 ^ 12"
  shows "determine_lead_follow deals =
           Inr (if length deals = 0 then ''Unknown''
                else if 7 * length deals \<le> 10 * lead_count deals then ''Lead''
                else if 10 * lead_count deals \<le> 3 * length deals then ''Follow''
                else ''Both'')"
proof (cases "length deals = 0")
  case True
  then show ?thesis by (simp add: determine_lead_follow_def)
next
  case False
  define t where "t = length deals"
  define l where "l = lead_count deals"
  define q :: rat where "q = of_nat l / of_nat t"
  have tpos: "0 < t" and tle: "t \<le> 10 ^ 12" and lt: "l \<le> t"
    using False assms lead_count_le [of deals] by (simp_all add: t_def l_def)
  have trat: "(0::rat) < of_nat t" using tpos by simp
  have q0: "0 \<le> q" by (simp add: q_def)
  have "l \<le> 10 ^ 12" using lt tle by simp
  then have "(of_nat l :: rat) \<le> of_nat (10 ^ 12)" by (simp only: of_nat_le_iff)
  then have "(of_nat l :: rat) \<le> 2 ^ 1023" by simp
  moreover have "(1::rat) \<le> of_nat t" using tpos by simp
  ultimately have div: "py_truediv (of_nat l) (of_nat t) = Inr (fl q)"
    using truediv_pos [of "of_nat l" "of_nat t"] by (auto simp: q_def)
  have res: "determine_lead_follow deals =
      Inr (if fl q \<ge> fl (7 / 10) then ''Lead'' else if fl q \<le> fl (3 / 10) then ''Follow'' else ''Both'')"
    using False div by (simp add: determine_lead_follow_def t_def [symmetric] l_def [symmetric])
  have lead: "fl (7 / 10) \<le> fl q \<longleftrightarrow> 7 * t \<le> 10 * l"
  proof
    assume a: "7 * t \<le> 10 * l"
    have "(of_nat (7 * t) :: rat) \<le> of_nat (10 * l)" using a by (simp only: of_nat_le_iff)
    then have "7 / 10 \<le> q" using trat by (simp add: q_def field_simps)
    then show "fl (7 / 10) \<le> fl q" by (intro fl_mono) simp_all
  next
    assume b: "fl (7 / 10) \<le> fl q"
    show "7 * t \<le> 10 * l"
    proof (rule ccontr)
      assume "\<not> 7 * t \<le> 10 * l"
      then have "10 * l + 1 \<le> 7 * t" by simp
      from ratio_below [OF tpos tle this] have "q \<le> 7 / 10 - 1 / (10 * 10 ^ 12)"
        by (simp add: q_def)
      with q0 have "fl q \<le> fl (7 / 10 - 1 / (10 * 10 ^ 12))" by (intro fl_mono)
      with fl_seven_tenths_gap b show False by simp
    qed
  qed
  have follow: "fl q \<le> fl (3 / 10) \<longleftrightarrow> 10 * l \<le> 3 * t"
  proof
    assume a: "10 * l \<le> 3 * t"
    have "(of_nat (10 * l) :: rat) \<le> of_nat (3 * t)" using a by (simp only: of_nat_le_iff)
    then have "q \<le> 3 / 10" using trat by (simp add: q_def field_simps)
    with q0 show "fl q \<le> fl (3 / 10)" by (intro fl_mono)
  next
    assume b: "fl q \<le> fl (3 / 10)"
    show "10 * l \<le> 3 * t"
    proof (rule ccontr)
      assume "\<not> 10 * l \<le> 3 * t"
      then have "3 * t + 1 \<le> 10 * l" by simp
      from ratio_above [OF tpos tle this] have "3 / 10 + 1 / (10 * 10 ^ 12) \<le> q"
        by (simp add: q_def)
      then have "fl (3 / 10 + 1 / (10 * 10 ^ 12)) \<le> fl q" by (intro fl_mono) simp_all
      with fl_three_tenths_gap b show False by simp
    qed
  qed
  show ?thesis using False unfolding res lead follow by (simp add: t_def l_def)
qed

lemma leads_of_counts:
  "k \<le> n \<Longrightarrow> length (leads_of k n) = n \<and> lead_count (leads_of k n) = k"
  by (simp add: leads_of_def lead_count_def lead_deal_def follow_deal_def dict_get_def)

theorem lead_follow_thresholds_witness:
  "determine_lead_follow (leads_of 7 10) = Inr ''Lead''
   \<and> determine_lead_follow (leads_of 3 10) = Inr ''Follow''
   \<and> determine_lead_follow (leads_of 5 10) = Inr ''Both''
   \<and> determine_lead_follow [] = Inr ''Unknown''"
proof -
  have s: "length (leads_of 7 10) = 10 \<and> lead_count (leads_of 7 10) = 7"
    and t: "length (leads_of 3 10) = 10 \<and> lead_count (leads_of 3 10) = 3"
    and f: "length (leads_of 5 10) = 10 \<and> lead_count (leads_of 5 10) = 5"
    by (simp_all add: leads_of_counts)
  have "determine_lead_follow (leads_of 7 10) = Inr ''Lead''"
    using lead_follow_thresholds [of "leads_of 7 10"] s by simp
  moreover have "determine_lead_follow (leads_of 3 10) = Inr ''Follow''"
    using lead_follow_thresholds [of "leads_of 3 10"] t by simp
  moreover have "determine_lead_follow (leads_of 5 10) = Inr ''Both''"
    using lead_follow_thresholds [of "leads_of 5 10"] f by simp
  moreover have "determine_lead_follow [] = Inr ''Unknown''"
    using lead_follow_thresholds [of "[]"] by simp
  ultimately show ?thesis by simp
qed

section \<open>Properties of the sweet spot\<close>

lemma rhe_eq: "of_int k - 1 / 2 < x \<Longrightarrow> x < of_int k + 1 / 2 \<Longrightarrow> rhe x = k"
proof -
  assume a: "of_int k - 1 / 2 < x" "x < of_int k + 1 / 2"
  then have "\<lfloor>x\<rfloor> = k \<or> \<lfloor>x\<rfloor> = k - 1" by linarith
  then show ?thesis
  proof
    assume "\<lfloor>x\<rfloor> = k"
    with a show ?thesis by (simp add: rhe_def Let_def)
  next
    assume "\<lfloor>x\<rfloor> = k - 1"
    with a show ?thesis by (simp add: rhe_def Let_def)
  qed
qed

lemma fl_exact_int: "0 < n \<Longrightarrow> n < 2 ^ 53 \<Longrightarrow> fl (of_int n) = of_int n"
  using fl_exact [of n 0] by simp

lemma fl_exact_half: "0 < n \<Longrightarrow> n < 2 ^ 53 \<Longrightarrow> fl (of_int n / 2) = of_int n / 2"
  using fl_exact [of n "- 1"] by simp

lemma fl_exact_4096: "0 < n \<Longrightarrow> n < 2 ^ 53 \<Longrightarrow> fl (of_int n / 4096) = of_int n / 4096"
  using fl_exact [of n "- 12"] by (simp add: power_int_minus field_simps)

lemma fl_exact_262144: "0 < n \<Longrightarrow> n < 2 ^ 53 \<Longrightarrow> fl (of_int n / 262144) = of_int n / 262144"
  using fl_exact [of n "- 18"] by (simp add: power_int_minus field_simps)

lemma round_chain:
  assumes m: "0 < m" "m < 2 ^ 51"
  shows "rhe (fl (fl (of_int m / 2000) / 50)) = rhe (of_int m / 100000)"
proof (cases "50000 dvd m")
  case True
  then obtain j where j: "m = 50000 * j" by (auto simp: dvd_def)
  with m have jpos: "0 < j" and jlt: "25 * j < 2 ^ 53" "j < 2 ^ 53" by simp_all
  have "(of_int m :: rat) / 2000 = of_int (25 * j)" by (simp add: j)
  then have "fl (of_int m / 2000) = of_int (25 * j)"
    using fl_exact_int [of "25 * j"] jpos jlt by simp
  then have "fl (of_int m / 2000) / 50 = of_int j / 2" by simp
  then have a: "fl (fl (of_int m / 2000) / 50) = of_int j / 2"
    using fl_exact_half [OF jpos jlt(2)] by simp
  have b: "(of_int m :: rat) / 100000 = of_int j / 2" by (simp add: j)
  show ?thesis by (simp only: a b)
next
  case False
  define k where "k = rhe (of_int m / 100000)"
  define s where "s = fl (of_int m / 2000)"
  define y where "y = fl (s / 50)"
  have knn: "0 \<le> k" unfolding k_def using m by (intro rhe_nonneg) simp
  have near: "\<bar>of_int k - (of_int m :: rat) / 100000\<bar> \<le> 1 / 2"
    unfolding k_def by (rule rhe_near)
  then have "(of_int (100000 * k - 50000) :: rat) \<le> of_int m" "(of_int m :: rat) \<le> of_int (100000 * k + 50000)"
    by (simp_all add: abs_le_iff field_simps)
  then have b0: "100000 * k - 50000 \<le> m" "m \<le> 100000 * k + 50000"
    by (simp_all only: of_int_le_iff)
  have ne1: "m \<noteq> 100000 * k - 50000"
  proof
    assume "m = 100000 * k - 50000"
    then have "m = 50000 * (2 * k - 1)" by simp
    with False show False by simp
  qed
  have ne2: "m \<noteq> 100000 * k + 50000"
  proof
    assume "m = 100000 * k + 50000"
    then have "m = 50000 * (2 * k + 1)" by simp
    with False show False by simp
  qed
  from b0 ne1 ne2 have b: "100000 * k - 49999 \<le> m" "m \<le> 100000 * k + 49999" by simp_all
  have kbig: "100000 * k < 2 ^ 51 + 50000" using b0(1) m(2) by simp
  have s0: "0 \<le> s" unfolding s_def using m by (intro fl_nonneg) simp
  have y0: "0 \<le> y" unfolding y_def using s0 by (intro fl_nonneg) simp
  \<comment> \<open>the upper side\<close>
  define nA where "nA = (50 * k + 25) * 4096 - 1"
  define nB where "nB = (2 * k + 1) * 131072 - 1"
  have nA: "0 < nA" "nA < 2 ^ 53" and nB: "0 < nB" "nB < 2 ^ 53"
    using knn kbig by (simp_all add: nA_def nB_def)
  have "(of_int m :: rat) \<le> of_int (100000 * k + 49999)" using b(2) by (simp only: of_int_le_iff)
  then have "(of_int m :: rat) / 2000 \<le> of_int nA / 4096"
    by (simp add: nA_def field_simps)
  moreover have "(0::rat) \<le> of_int m / 2000" using m by simp
  ultimately have "s \<le> fl (of_int nA / 4096)" unfolding s_def by (intro fl_mono)
  then have sA: "s \<le> of_int nA / 4096" using fl_exact_4096 [OF nA] by simp
  then have "s / 50 \<le> of_int nB / 262144"
    by (simp add: nA_def nB_def field_simps)
  with s0 have "y \<le> fl (of_int nB / 262144)" unfolding y_def by (intro fl_mono) simp_all
  then have "y \<le> of_int nB / 262144" using fl_exact_262144 [OF nB] by simp
  then have up: "y < of_int k + 1 / 2" by (simp add: nB_def field_simps)
  \<comment> \<open>the lower side\<close>
  have lo: "of_int k - 1 / 2 < y"
  proof (cases "k = 0")
    case True
    with y0 show ?thesis by simp
  next
    case False
    with knn have k1: "1 \<le> k" by simp
    define nC where "nC = (50 * k - 25) * 4096 + 1"
    define nD where "nD = (2 * k - 1) * 131072 + 1"
    have nC: "0 < nC" "nC < 2 ^ 53" and nD: "0 < nD" "nD < 2 ^ 53"
      using k1 kbig by (simp_all add: nC_def nD_def)
    have "(of_int (100000 * k - 49999) :: rat) \<le> of_int m" using b(1) by (simp only: of_int_le_iff)
    then have "of_int nC / 4096 \<le> (of_int m :: rat) / 2000"
      by (simp add: nC_def field_simps)
    moreover have "(0::rat) \<le> of_int nC / 4096" using nC by simp
    ultimately have "fl (of_int nC / 4096) \<le> s" unfolding s_def by (intro fl_mono)
    then have "of_int nC / 4096 \<le> s" using fl_exact_4096 [OF nC] by simp
    then have "of_int nD / 262144 \<le> s / 50"
      by (simp add: nC_def nD_def field_simps)
    moreover have "(0::rat) \<le> of_int nD / 262144" using nD by simp
    ultimately have "fl (of_int nD / 262144) \<le> y" unfolding y_def by (intro fl_mono)
    then have "of_int nD / 262144 \<le> y" using fl_exact_262144 [OF nD] by simp
    then show ?thesis by (simp add: nD_def field_simps)
  qed
  from rhe_eq [OF lo up] show ?thesis by (simp add: y_def s_def k_def)
qed

lemma sweet_spot_of_median:
  assumes m: "0 < m" "m < 2 ^ 51"
    and med: "py_truediv median_f 1000 = Inr (fl (of_int m / 2000))"
  shows "(case py_truediv median_f 1000 of
            Inl e \<Rightarrow> Inl e
          | Inr sweet_spot \<Rightarrow> Inr (rhe (fl (sweet_spot / 50)) * 50))
         = Inr (50 * rhe (of_int m / 2 / 1000 / 50))"
  using round_chain [OF m] by (simp add: med)

lemma truediv_thousand:
  assumes "0 < m" "m < 2 ^ 51"
  shows "py_truediv (of_int m / 2) 1000 = Inr (fl (of_int m / 2000))"
proof -
  have "(of_int m :: rat) < of_int (2 ^ 51)" using assms(2) by (simp only: of_int_less_iff)
  then have "(of_int m :: rat) / 2 \<le> 2 ^ 1023" by simp
  moreover have "(0::rat) \<le> of_int m / 2" using assms(1) by simp
  ultimately show ?thesis using truediv_pos [of "of_int m / 2" 1000] by auto
qed

text \<open>
  C4 (sweet spot). For deals whose amounts are absent, empty, booleans or integers below
  \<open>10 ^ 15\<close> and with at least one positive amount, the floating-point computation returns
  exactly the median of the positive amounts divided by 1000 and rounded to a nearest
  multiple of 50 (at most 25 away, ties to the even multiple); with no positive amount
  the sweet spot is 0 and prints as \<open>Unknown\<close>; 5250 prints as \<open>$5.2M\<close>.
\<close>

theorem sweet_spot_rounded_median:
  assumes ok: "\<forall>d\<in>set deals. amount_ok (10 ^ 15) d"
  shows "(positive_amounts deals \<noteq> [] \<longrightarrow>
            (\<exists>r. calculate_sweet_spot deals = Inr r
                 \<and> r = 50 * rhe (median (positive_amounts deals) / 1000 / 50)
                 \<and> \<bar>of_int r - median (positive_amounts deals) / 1000\<bar> \<le> 25))
       \<and> (positive_amounts deals = [] \<longrightarrow>
            calculate_sweet_spot deals = Inr 0 \<and> format_sweet_spot 0 = Inr ''Unknown'')
       \<and> format_sweet_spot 5250 = Inr ''$5.2M''"
proof (intro conjI impI)
  show "format_sweet_spot 5250 = Inr ''$5.2M''" by code_simp
next
  assume "positive_amounts deals = []"
  then show "calculate_sweet_spot deals = Inr 0"
    by (simp add: calculate_sweet_spot_def collect_amounts_ok [OF ok])
next
  show "format_sweet_spot 0 = Inr ''Unknown''" by (simp add: format_sweet_spot_def)
next
  assume ne: "positive_amounts deals \<noteq> []"
  define A where "A = positive_amounts deals"
  define s where "s = sort A"
  define n where "n = length s"
  have npos: "0 < n" using ne by (simp add: n_def s_def A_def)
  have bnd: "0 < s ! i \<and> s ! i < 10 ^ 15" if "i < n" for i
  proof -
    from that have "s ! i \<in> set A" unfolding n_def s_def by (metis nth_mem set_sort)
    then show ?thesis using positive_amounts_bound [OF ok, of "s ! i"] by (simp add: A_def)
  qed
  have "\<exists>m. 0 < m \<and> m < 2 ^ 51 \<and> median A = of_int m / 2
          \<and> calculate_sweet_spot deals = Inr (50 * rhe (of_int m / 2 / 1000 / 50))"
  proof (cases "even n")
    case True
    with npos have i1: "n div 2 - 1 < n" and i2: "n div 2 < n" by auto
    define m where "m = s ! (n div 2 - 1) + s ! (n div 2)"
    have m: "0 < m" "m < 2 ^ 51" using bnd [OF i1] bnd [OF i2] by (simp_all add: m_def)
    have "(of_int m :: rat) < of_int (2 ^ 51)" using m(2) by (simp only: of_int_less_iff)
    then have "(of_int m :: rat) \<le> 2 ^ 1023" by simp
    moreover have "(0::rat) \<le> of_int m" using m(1) by simp
    ultimately have "py_truediv (of_int m) 2 = Inr (fl (of_int m / 2))"
      using truediv_pos [of "of_int m" 2] by auto
    moreover have "m < 2 ^ 53" using m(2) by simp
    ultimately have half: "py_truediv (of_int m) 2 = Inr (of_int m / 2)"
      using fl_exact_half [OF m(1)] by simp
    from half have half':
      "py_truediv (of_int (s ! (n div 2 - Suc 0)) + of_int (s ! (n div 2))) 2 = Inr (of_int m / 2)"
      by (simp add: m_def)
    have "calculate_sweet_spot deals = Inr (50 * rhe (of_int m / 2 / 1000 / 50))"
      using ne True sweet_spot_of_median [OF m truediv_thousand [OF m]]
      by (simp add: calculate_sweet_spot_def collect_amounts_ok [OF ok] Let_def
          A_def [symmetric] s_def [symmetric] n_def [symmetric] half'
          even_iff_mod_2_eq_zero)
    moreover have "median A = of_int m / 2"
      using True by (simp add: median_def s_def [symmetric] n_def [symmetric] m_def)
    ultimately show ?thesis using m by blast
  next
    case False
    with npos have i: "n div 2 < n" by auto
    define m where "m = 2 * s ! (n div 2)"
    have m: "0 < m" "m < 2 ^ 51" using bnd [OF i] by (simp_all add: m_def)
    have e: "(of_int (s ! (n div 2)) :: rat) = of_int m / 2" by (simp add: m_def)
    have "calculate_sweet_spot deals = Inr (50 * rhe (of_int m / 2 / 1000 / 50))"
      using ne False sweet_spot_of_median [OF m truediv_thousand [OF m]]
      by (simp add: calculate_sweet_spot_def collect_amounts_ok [OF ok] Let_def
          A_def [symmetric] s_def [symmetric] n_def [symmetric] e
          even_iff_mod_2_eq_zero)
    moreover have "median A = of_int m / 2"
      using False by (simp add: median_def s_def [symmetric] n_def [symmetric] e)
    ultimately show ?thesis using m by blast
  qed
  then obtain m where m: "median A = of_int m / 2"
    "calculate_sweet_spot deals = Inr (50 * rhe (of_int m / 2 / 1000 / 50))" by blast
  define q :: rat where "q = median A / 1000 / 50"
  have res: "calculate_sweet_spot deals = Inr (50 * rhe q)"
    unfolding q_def m(1) using m(2) .
  have "\<bar>of_int (rhe q) - q\<bar> \<le> 1 / 2" by (rule rhe_near)
  then have "\<bar>of_int (50 * rhe q) - median A / 1000\<bar> \<le> 25"
    by (simp add: q_def abs_le_iff field_simps)
  with res show "\<exists>r. calculate_sweet_spot deals = Inr r
                 \<and> r = 50 * rhe (median (positive_amounts deals) / 1000 / 50)
                 \<and> \<bar>of_int r - median (positive_amounts deals) / 1000\<bar> \<le> 25"
    by (simp add: q_def A_def)
qed

theorem sweet_spot_rounded_median_witness:
  "calculate_sweet_spot sample_deals = Inr 5250
   \<and> calculate_sweet_spot [[(''company'', PStr ''Gamma''), (''amount'', PInt 0)]] = Inr 0"
proof -
  have ok: "\<forall>d\<in>set sample_deals. amount_ok (10 ^ 15) d"
    by (simp add: sample_deals_def amount_ok_def dict_get_def)
  have p: "positive_amounts sample_deals = [8000000, 750000, 15000000, 2500000]"
    by (simp add: sample_deals_def positive_amounts_def amount_value_def dict_get_def)
  have "50 * rhe (median [8000000, 750000, 15000000, 2500000] / 1000 / 50) = 5250"
    by code_simp
  with sweet_spot_rounded_median [OF ok] p
  have a: "calculate_sweet_spot sample_deals = Inr 5250" by auto
  let ?d = "[[(''company'', PStr ''Gamma''), (''amount'', PInt 0)]]"
  have ok': "\<forall>d\<in>set ?d. amount_ok (10 ^ 15) d" by (simp add: amount_ok_def dict_get_def)
  have none: "positive_amounts ?d = []"
    by (simp add: positive_amounts_def amount_value_def dict_get_def)
  from sweet_spot_rounded_median [OF ok'] none
  have b: "calculate_sweet_spot ?d = Inr 0" by blast
  from a b show ?thesis by blast
qed

section \<open>Properties of the sector classification\<close>

lemma starts_with_iff: "starts_with sub s \<longleftrightarrow> (\<exists>q. s = sub @ q)"
  by (induction sub s rule: starts_with.induct) auto

lemma contains_iff: "contains sub s \<longleftrightarrow> (\<exists>p q. s = p @ sub @ q)"
proof (induction s)
  case Nil
  then show ?case by auto
next
  case (Cons c cs)
  show ?case
  proof
    assume "contains sub (c # cs)"
    then consider "starts_with sub (c # cs)" | "contains sub cs" by auto
    then show "\<exists>p q. c # cs = p @ sub @ q"
    proof cases
      case 1
      then obtain q where "c # cs = sub @ q" by (auto simp: starts_with_iff)
      then have "c # cs = [] @ sub @ q" by simp
      then show ?thesis by blast
    next
      case 2
      with Cons.IH obtain p q where "cs = p @ sub @ q" by auto
      then have "c # cs = (c # p) @ sub @ q" by simp
      then show ?thesis by blast
    qed
  next
    assume "\<exists>p q. c # cs = p @ sub @ q"
    then obtain p q where pq: "c # cs = p @ sub @ q" by blast
    show "contains sub (c # cs)"
    proof (cases p)
      case Nil
      with pq have "starts_with sub (c # cs)" by (auto simp: starts_with_iff)
      then show ?thesis by simp
    next
      case (Cons a p')
      with pq have "cs = p' @ sub @ q" by simp
      with Cons.IH have "contains sub cs" by blast
      then show ?thesis by simp
    qed
  qed
qed

lemma sector_names_distinct: "distinct (map fst sector_keywords)"
  by (simp add: sector_keywords_def)

lemma map_fst_filter_distinct:
  "distinct (map fst kvs) \<Longrightarrow>
   map fst (filter (\<lambda>(k, v). Q v) kvs) = filter (\<lambda>k. \<exists>v. (k, v) \<in> set kvs \<and> Q v) (map fst kvs)"
proof (induction kvs)
  case Nil
  then show ?case by simp
next
  case (Cons kv kvs)
  obtain k v where kv: "kv = (k, v)" by (cases kv)
  from Cons.prems kv have fresh: "k \<notin> fst ` set kvs" and d: "distinct (map fst kvs)" by simp_all
  have "filter (\<lambda>k'. \<exists>v'. (k', v') \<in> set (kv # kvs) \<and> Q v') (map fst kvs)
      = filter (\<lambda>k'. \<exists>v'. (k', v') \<in> set kvs \<and> Q v') (map fst kvs)"
    using fresh kv by (intro filter_cong) (auto simp: image_iff)
  moreover have "(\<exists>v'. (k, v') \<in> set (kv # kvs) \<and> Q v') \<longleftrightarrow> Q v"
    using fresh kv by (auto simp: image_iff)
  ultimately show ?case using Cons.IH [OF d] kv by simp
qed

lemma filter_mem_filter: "filter (\<lambda>x. x \<in> set (filter Q ys)) ys = filter Q ys"
  by (intro filter_cong) auto

lemma take_sort_key_sorted: "sorted (map f (take n (sort_key f xs)))"
  by (simp add: take_map [symmetric] sorted_wrt_take)

lemma take_sort_key_best:
  assumes "x \<in> set (take n (sort_key f xs))" "y \<in> set xs" "y \<notin> set (take n (sort_key f xs))"
  shows "f x \<le> f y"
proof -
  let ?l = "sort_key f xs"
  have "y \<in> set ?l" using assms(2) by simp
  then have "y \<in> set (take n ?l) \<union> set (drop n ?l)"
    by (simp only: set_append [symmetric] append_take_drop_id)
  with assms(3) have y: "y \<in> set (drop n ?l)" by blast
  have "sorted (map f (take n ?l @ drop n ?l))" by simp
  then have "\<forall>a\<in>set (map f (take n ?l)). \<forall>b\<in>set (map f (drop n ?l)). a \<le> b"
    by (simp only: map_append sorted_append) blast
  with assms(1) y show ?thesis by auto
qed

lemma flagged_sectors_char:
  "flagged_sectors tx =
     filter (\<lambda>s. \<exists>kws. (s, kws) \<in> set sector_keywords
                  \<and> (\<exists>kw\<in>set kws. \<exists>p q. tx = p @ kw @ q))
       (map fst sector_keywords)"
  unfolding flagged_sectors_def
  using map_fst_filter_distinct [OF sector_names_distinct,
      of "\<lambda>kws. \<exists>kw\<in>set kws. contains kw tx"]
  by (simp add: contains_iff)

lemma sector_scores_names:
  "map fst (sector_scores tx (flagged_sectors tx)) = flagged_sectors tx"
proof -
  define Q where "Q = (\<lambda>(sector :: string, keywords). \<exists>keyword\<in>set keywords. contains keyword tx)"
  have fl: "flagged_sectors tx = map fst (filter Q sector_keywords)"
    by (simp add: flagged_sectors_def Q_def)
  have "map fst (sector_scores tx (flagged_sectors tx))
      = map fst (filter (\<lambda>(sector, keywords). sector \<in> set (flagged_sectors tx)) sector_keywords)"
    by (simp add: sector_scores_def case_prod_unfold comp_def)
  also have "\<dots> = map fst (filter Q sector_keywords)"
  proof -
    have "filter (\<lambda>(sector, keywords). sector \<in> set (flagged_sectors tx)) sector_keywords
        = filter Q sector_keywords"
    proof (rule filter_cong [OF refl])
      fix x assume x: "x \<in> set sector_keywords"
      obtain s k where sk: "x = (s, k)" by (cases x)
      have "s \<in> set (flagged_sectors tx) \<longleftrightarrow> Q (s, k)"
      proof
        assume "Q (s, k)"
        with x sk show "s \<in> set (flagged_sectors tx)" by (force simp: fl)
      next
        assume "s \<in> set (flagged_sectors tx)"
        then obtain k' where k': "(s, k') \<in> set sector_keywords" "Q (s, k')"
          by (auto simp: fl)
        from sector_names_distinct x sk k'(1) have "k' = k"
          by (meson eq_key_imp_eq_value)
        with k'(2) show "Q (s, k)" by simp
      qed
      with sk show "(case x of (sector, keywords) \<Rightarrow> sector \<in> set (flagged_sectors tx)) = Q x"
        by simp
    qed
    then show ?thesis by simp
  qed
  finally show ?thesis by (simp add: fl)
qed

lemma sector_scores_score:
  assumes "(s, sc) \<in> set (sector_scores (lower txt) sectors)"
  shows "sc = score_of txt s"
proof -
  from assms obtain k where k: "(s, k) \<in> set sector_keywords" "sc = keyword_score (lower txt) k"
    by (auto simp: sector_scores_def)
  from k(1) sector_names_distinct have "map_of sector_keywords s = Some k" by simp
  with k(2) show ?thesis by (simp add: score_of_def dict_get_def)
qed

text \<open>
  C8 (sector cap). The classifier returns at most five sectors. The flagged sectors are
  those of the vocabulary with a keyword occurring in the lower-cased text, in vocabulary
  order; five or fewer are returned as they are. Of more than five, exactly five distinct
  ones are returned, in order of descending total keyword count, and no flagged sector left
  out has a higher count than one returned.
\<close>

theorem sector_classification_cap:
  "length (extract_sectors txt) \<le> 5
   \<and> flagged_sectors (lower txt) =
       filter (\<lambda>s. \<exists>kws. (s, kws) \<in> set sector_keywords
                    \<and> (\<exists>kw\<in>set kws. \<exists>p q. lower txt = p @ kw @ q))
         (map fst sector_keywords)
   \<and> (length (flagged_sectors (lower txt)) \<le> 5 \<longrightarrow>
        extract_sectors txt = flagged_sectors (lower txt))
   \<and> (5 < length (flagged_sectors (lower txt)) \<longrightarrow>
        length (extract_sectors txt) = 5
      \<and> distinct (extract_sectors txt)
      \<and> set (extract_sectors txt) \<subseteq> set (flagged_sectors (lower txt))
      \<and> sorted_wrt (\<lambda>a b. score_of txt a \<ge> score_of txt b) (extract_sectors txt)
      \<and> (\<forall>s\<in>set (flagged_sectors (lower txt)) - set (extract_sectors txt).
           \<forall>r\<in>set (extract_sectors txt). score_of txt s \<le> score_of txt r))"
proof -
  define tx where "tx = lower txt"
  define fs where "fs = flagged_sectors tx"
  define sc where "sc = sector_scores tx fs"
  define f :: "string \<times> nat \<Rightarrow> int" where "f = (\<lambda>(sector, score). - int score)"
  define best where "best = take 5 (sort_key f sc)"
  have names: "map fst sc = fs" unfolding sc_def fs_def by (rule sector_scores_names)
  have len: "length sc = length fs" using names by (metis length_map)
  have dist: "distinct (map fst sc)"
    unfolding names fs_def flagged_sectors_def
    using sector_names_distinct by (simp add: distinct_map_filter)
  have score: "snd p = score_of txt (fst p)" if "p \<in> set sc" for p
  proof -
    from that have "(fst p, snd p) \<in> set (sector_scores (lower txt) fs)"
      by (simp add: sc_def tx_def)
    then show ?thesis by (rule sector_scores_score)
  qed
  have best_sub: "set best \<subseteq> set sc" unfolding best_def by (metis set_take_subset set_sort)
  have few: "extract_sectors txt = fs" if "length fs \<le> 5"
    using that by (simp add: extract_sectors_def Let_def tx_def fs_def)
  have many: "extract_sectors txt = map fst best" if "5 < length fs"
    using that by (simp add: extract_sectors_def Let_def tx_def fs_def sc_def best_def f_def)
  have lbest: "length best \<le> 5" by (simp add: best_def)
  have c1: "length (extract_sectors txt) \<le> 5"
    using few many lbest by (cases "length fs \<le> 5") simp_all
  have c4: "length (extract_sectors txt) = 5
      \<and> distinct (extract_sectors txt)
      \<and> set (extract_sectors txt) \<subseteq> set fs
      \<and> sorted_wrt (\<lambda>a b. score_of txt a \<ge> score_of txt b) (extract_sectors txt)
      \<and> (\<forall>s\<in>set fs - set (extract_sectors txt).
           \<forall>r\<in>set (extract_sectors txt). score_of txt s \<le> score_of txt r)"
    if big: "5 < length fs"
  proof -
    have l5: "length best = 5" using big len by (simp add: best_def)
    have "distinct (map fst (sort_key f sc))"
      using dist by (metis distinct_map distinct_sort set_sort inj_on_cong)
    then have d: "distinct (map fst best)"
      unfolding best_def take_map [symmetric] by (rule distinct_take)
    have sub: "set (map fst best) \<subseteq> set fs"
      using best_sub names by (metis image_mono set_map)
    have "sorted (map f best)" unfolding best_def by (rule take_sort_key_sorted)
    then have "sorted_wrt (\<lambda>a b. f a \<le> f b) best" by (simp add: sorted_map)
    then have "sorted_wrt (\<lambda>a b. score_of txt (fst a) \<ge> score_of txt (fst b)) best"
    proof (rule sorted_wrt_mono_rel [rotated])
      fix a b assume ab: "a \<in> set best" "b \<in> set best" "f a \<le> f b"
      with best_sub have "a \<in> set sc" "b \<in> set sc" by auto
      then have "snd a = score_of txt (fst a)" "snd b = score_of txt (fst b)"
        by (simp_all add: score)
      with ab(3) show "score_of txt (fst b) \<le> score_of txt (fst a)"
        by (simp add: f_def case_prod_unfold)
    qed
    then have srt: "sorted_wrt (\<lambda>a b. score_of txt a \<ge> score_of txt b) (map fst best)"
      by (simp add: sorted_wrt_map)
    have rest: "score_of txt s \<le> score_of txt r"
      if s: "s \<in> set fs" "s \<notin> set (map fst best)" and r: "r \<in> set (map fst best)" for s r
    proof -
      from s(1) names obtain ps where ps: "ps \<in> set sc" "fst ps = s" by (metis imageE set_map)
      from r obtain pr where pr: "pr \<in> set best" "fst pr = r" by auto
      from s(2) ps(2) have "ps \<notin> set best" by force
      with pr(1) ps(1) have "f pr \<le> f ps"
        unfolding best_def by (intro take_sort_key_best) simp_all
      then have "f pr \<le> f ps" .
      moreover from pr(1) best_sub have "pr \<in> set sc" by auto
      then have "snd pr = score_of txt r" using score [of pr] pr(2) by simp
      moreover have "snd ps = score_of txt s" using score [OF ps(1)] ps(2) by simp
      ultimately show ?thesis by (simp add: f_def case_prod_unfold)
    qed
    show ?thesis unfolding many [OF big] using l5 d sub srt rest by auto
  qed
  show ?thesis
    using c1 few c4 flagged_sectors_char [of tx]
    unfolding fs_def tx_def by simp
qed

lemma sample_text_sectors:
  "flagged_sectors (lower sample_text) =
     [''Fintech'', ''Enterprise SaaS'', ''Health Tech'', ''AI/ML'', ''Cybersecurity'',
      ''E-commerce'', ''Edtech'', ''AR/VR'']"
  "extract_sectors sample_text =
     [''AI/ML'', ''Fintech'', ''Health Tech'', ''Enterprise SaaS'', ''Cybersecurity'']"
  by code_simp+

lemma short_text_sectors:
  "flagged_sectors (lower ''We back fintech and healthcare founders.'') =
     [''Fintech'', ''Health Tech'', ''AR/VR'']"
  by code_simp

theorem sector_classification_cap_witness:
  "length (flagged_sectors (lower sample_text)) = 8
   \<and> extract_sectors sample_text =
       [''AI/ML'', ''Fintech'', ''Health Tech'', ''Enterprise SaaS'', ''Cybersecurity'']
   \<and> sorted_wrt (\<lambda>a b. score_of sample_text a \<ge> score_of sample_text b)
       (extract_sectors sample_text)
   \<and> extract_sectors ''We back fintech and healthcare founders.'' =
       [''Fintech'', ''Health Tech'', ''AR/VR'']"
proof -
  have a: "length (flagged_sectors (lower sample_text)) = 8"
    by (simp add: sample_text_sectors(1))
  then have big: "5 < length (flagged_sectors (lower sample_text))" by simp
  have b: "extract_sectors sample_text =
       [''AI/ML'', ''Fintech'', ''Health Tech'', ''Enterprise SaaS'', ''Cybersecurity'']"
    by (rule sample_text_sectors(2))
  have c: "sorted_wrt (\<lambda>a b. score_of sample_text a \<ge> score_of sample_text b)
       (extract_sectors sample_text)"
    using sector_classification_cap [of sample_text] big by blast
  have "length (flagged_sectors (lower ''We back fintech and healthcare founders.'')) \<le> 5"
    by (simp add: short_text_sectors)
  with sector_classification_cap [of "''We back fintech and healthcare founders.''"]
  have "extract_sectors ''We back fintech and healthcare founders.'' =
      flagged_sectors (lower ''We back fintech and healthcare founders.'')" by blast
  then have d: "extract_sectors ''We back fintech and healthcare founders.'' =
       [''Fintech'', ''Health Tech'', ''AR/VR'']"
    by (simp only: short_text_sectors)
  from a b c d show ?thesis by blast
qed

section \<open>Properties of the fallback matcher\<close>





lemma score_loop_valid:
  "\<forall>a\<in>set matches. a < length st \<Longrightarrow>
   score_loop d sectors stages preference vcs matches st = (Inr refs, st') \<Longrightarrow>
   \<forall>a\<in>set refs. a < length st'"
proof (induction vcs arbitrary: matches st)
  case Nil
  then show ?case by simp
next
  case (Cons vc vcs)
  show ?case
  proof (cases "score_vc d sectors stages preference (record_at st vc)")
    case (Inl e)
    with Cons.prems show ?thesis by simp
  next
    case (Inr m)
    show ?thesis
    proof (cases m)
      case None
      with Inr Cons show ?thesis by simp
    next
      case (Some r)
      have v: "\<forall>a\<in>set (matches @ [length st]). a < length (st @ [r])"
        using Cons.prems(1) by auto
      from Cons.prems(2) Inr Some
      have "score_loop d sectors stages preference vcs (matches @ [length st]) (st @ [r]) = (Inr refs, st')"
        by simp
      from Cons.IH [OF v this] show ?thesis .
    qed
  qed
qed











section \<open>The merge in the store\<close>

lemma record_at_update:
  "a < length st \<Longrightarrow> record_at (st[a := v]) b = (if b = a then v else record_at st b)"
  by (simp add: record_at_def)

lemma map_apsnd_dict_set:
  "map (apsnd f) (dict_set m k a) = dict_set (map (apsnd f) m) k (f a)"
  unfolding dict_set_def by (induction m) auto

lemma map_of_apsnd: "map_of (map (apsnd f) m) k = map_option f (map_of m k)"
  by (induction m) auto

lemma dict_set_keys: "distinct (map fst m) \<Longrightarrow> distinct (map fst (dict_set m k a))"
  by (simp add: dict_set_def distinct_update)

lemma dict_set_values: "set (map snd (dict_set m k a)) \<subseteq> insert a (set (map snd m))"
  unfolding dict_set_def by (induction m) auto

lemma dict_set_values_distinct:
  "distinct (map snd m) \<Longrightarrow> a \<notin> set (map snd m) \<Longrightarrow> distinct (map snd (dict_set m k a))"
  unfolding dict_set_def
proof (induction m)
  case Nil
  then show ?case by simp
next
  case (Cons x m)
  obtain k' a' where x: "x = (k', a')" by (cases x)
  have "set (map snd (AList.update k a m)) \<subseteq> insert a (set (map snd m))"
    using dict_set_values [of m k a] by (simp add: dict_set_def)
  with Cons x show ?case by auto
qed

lemma fill_in_place:
  assumes "distinct (map fst m)" "distinct (map snd m)" "map_of m k = Some a" "a < length st"
  shows "map (apsnd (record_at (st[a := v]))) m = dict_set (map (apsnd (record_at st)) m) k v"
  using assms
proof (induction m)
  case Nil
  then show ?case by simp
next
  case (Cons x m)
  obtain k' a' where x: "x = (k', a')" by (cases x)
  show ?case
  proof (cases "k' = k")
    case True
    with Cons.prems(3) x have a': "a' = a" by simp
    with Cons.prems(2) x have "a \<notin> snd ` set m" by auto
    then have "map (apsnd (record_at (st[a := v]))) m = map (apsnd (record_at st)) m"
      using Cons.prems(4) by (force simp: record_at_update)
    with True a' x Cons.prems(4) show ?thesis
      by (simp add: dict_set_def record_at_update)
  next
    case False
    with Cons.prems(3) x have look: "map_of m k = Some a" by simp
    then have "a \<in> snd ` set m" by (force dest: map_of_SomeD)
    with Cons.prems(2) x have "a' \<noteq> a" by auto
    moreover from Cons.prems x have "distinct (map fst m)" "distinct (map snd m)" by simp_all
    ultimately show ?thesis
      using False x Cons.IH look Cons.prems(4) by (simp add: dict_set_def record_at_update)
  qed
qed

lemma merge_first_at_values:
  "(case merge_first_at name_key m cb st of
      Inl e \<Rightarrow> Inl e
    | Inr m' \<Rightarrow> Inr (map (apsnd (record_at st)) m'))
   = merge_cb (map (apsnd (record_at st)) m) (map (record_at st) cb)"
proof (induction cb arbitrary: m)
  case Nil
  then show ?case by simp
next
  case (Cons a cb)
  show ?case
  proof (cases "name_key (record_at st a)")
    case (Inl e)
    then show ?thesis by simp
  next
    case (Inr name)
    with Cons.IH [of "if name \<noteq> [] then dict_set m name a else m"]
    show ?thesis by (simp add: map_apsnd_dict_set)
  qed
qed

lemma merge_first_at_refs:
  assumes "merge_first_at key_of m cb st = Inr m'"
    and "distinct (map fst m)" "distinct (map snd m)" "distinct cb"
    and "set (map snd m) \<inter> set cb = {}"
  shows "distinct (map fst m') \<and> distinct (map snd m')
       \<and> set (map snd m') \<subseteq> set (map snd m) \<union> set cb"
  using assms
proof (induction cb arbitrary: m)
  case Nil
  then show ?case by simp
next
  case (Cons a cb)
  from Cons.prems(1) obtain key where key: "key_of (record_at st a) = Inr key"
    by (auto split: sum.splits)
  let ?m = "if key \<noteq> [] then dict_set m key a else m"
  from Cons.prems(1) key have run: "merge_first_at key_of ?m cb st = Inr m'" by simp
  have a: "a \<notin> set (map snd m)" "a \<notin> set cb" using Cons.prems(4,5) by auto
  have k: "distinct (map fst ?m)" using Cons.prems(2) by (simp add: dict_set_keys)
  have v: "distinct (map snd ?m)"
    using Cons.prems(3) a(1) by (simp add: dict_set_values_distinct)
  have sub: "set (map snd ?m) \<subseteq> insert a (set (map snd m))"
    using dict_set_values [of m key a] by auto
  have d: "distinct cb" using Cons.prems(4) by simp
  have "set (map snd m) \<inter> set cb = {}" using Cons.prems(5) by auto
  with sub a(2) have dis: "set (map snd ?m) \<inter> set cb = {}" by blast
  from Cons.IH [OF run k v d dis]
  have res: "distinct (map fst m')" "distinct (map snd m')"
    "set (map snd m') \<subseteq> set (map snd ?m) \<union> set cb" by simp_all
  from res(3) sub have "set (map snd m') \<subseteq> set (map snd m) \<union> set (a # cb)" by auto
  with res(1,2) show ?case by blast
qed

lemma merge_second_at_values:
  assumes "distinct (map fst m)" "distinct (map snd m)" "distinct pb"
    and "set (map snd m) \<inter> set pb = {}"
    and "\<forall>a\<in>set (map snd m) \<union> set pb. a < length st"
  shows "(case merge_second_at name_key m pb st of
            (Inl e, st') \<Rightarrow> Inl e
          | (Inr m', st') \<Rightarrow> Inr (map (apsnd (record_at st')) m'))
         = merge_pb (map (apsnd (record_at st)) m) (map (record_at st) pb)"
  using assms
proof (induction pb arbitrary: m st)
  case Nil
  then show ?case by simp
next
  case (Cons b pb)
  have d: "distinct pb" and b: "b \<notin> set pb" "b \<notin> set (map snd m)"
    using Cons.prems(3,4) by auto
  have dis: "set (map snd m) \<inter> set pb = {}" using Cons.prems(4) by auto
  have bound: "\<forall>a\<in>set (map snd m) \<union> set pb. a < length st" using Cons.prems(5) by auto
  show ?case
  proof (cases "name_key (record_at st b)")
    case (Inl e)
    then show ?thesis by simp
  next
    case (Inr name)
    show ?thesis
    proof (cases "name = []")
      case True
      with Inr Cons.IH [OF Cons.prems(1,2) d dis bound] show ?thesis by simp
    next
      case False
      show ?thesis
      proof (cases "map_of m name")
        case None
        let ?m = "dict_set m name b"
        have k: "distinct (map fst ?m)" using Cons.prems(1) by (rule dict_set_keys)
        have v: "distinct (map snd ?m)" using Cons.prems(2) b(2) by (rule dict_set_values_distinct)
        have sub: "set (map snd ?m) \<subseteq> insert b (set (map snd m))" by (rule dict_set_values)
        have dis': "set (map snd ?m) \<inter> set pb = {}" using sub b(1) dis by auto
        have bound': "\<forall>a\<in>set (map snd ?m) \<union> set pb. a < length st"
          using sub Cons.prems(5) by auto
        from Cons.IH [OF k v d dis' bound'] Inr False None show ?thesis
          by (simp add: map_of_apsnd map_apsnd_dict_set)
      next
        case (Some a)
        let ?st = "st[a := fill_gaps (record_at st a) (record_at st b)]"
        from Some have am: "a \<in> set (map snd m)" by (force dest: map_of_SomeD)
        with Cons.prems(5) have alen: "a < length st" by auto
        from am dis have "a \<notin> set pb" by auto
        then have rest: "map (record_at ?st) pb = map (record_at st) pb"
          using alen by (auto simp: record_at_update)
        have filled: "map (apsnd (record_at ?st)) m
            = dict_set (map (apsnd (record_at st)) m) name
                (fill_gaps (record_at st a) (record_at st b))"
          by (rule fill_in_place [OF Cons.prems(1,2) Some alen])
        have bound': "\<forall>a\<in>set (map snd m) \<union> set pb. a < length ?st" using bound by simp
        from Cons.IH [OF Cons.prems(1,2) d dis bound'] Inr False Some show ?thesis
          by (simp add: map_of_apsnd rest filled)
      qed
    qed
  qed
qed

text \<open>
  On objects that are all different, the merge in the store returns the records that
  \<open>merge_company_data\<close> computes from their values.
\<close>

lemma merge_company_at_values:
  assumes "distinct (cb @ pb)" and "\<forall>a\<in>set (cb @ pb). a < length st"
  shows "returned (merge_company_at cb pb st)
           = merge_company_data (map (record_at st) cb) (map (record_at st) pb)"
proof (cases "merge_first_at name_key [] cb st")
  case (Inl e)
  with merge_first_at_values [where m = "[]" and cb = cb and st = st]
  have "merge_cb [] (map (record_at st) cb) = Inl e" by simp
  with Inl show ?thesis
    by (simp add: returned_def merge_company_at_def merge_at_def merge_company_data_def)
next
  case (Inr m)
  with merge_first_at_values [where m = "[]" and cb = cb and st = st]
  have first: "merge_cb [] (map (record_at st) cb) = Inr (map (apsnd (record_at st)) m)" by simp
  from assms(1) have dc: "distinct cb" by simp
  from merge_first_at_refs [OF Inr _ _ dc]
  have k: "distinct (map fst m)" and v: "distinct (map snd m)" and sub: "set (map snd m) \<subseteq> set cb"
    by simp_all
  from assms(1) have dp: "distinct pb" and "set cb \<inter> set pb = {}" by auto
  with sub have dis: "set (map snd m) \<inter> set pb = {}" by auto
  from sub assms(2) have bound: "\<forall>a\<in>set (map snd m) \<union> set pb. a < length st" by auto
  from merge_second_at_values [OF k v dp dis bound]
  show ?thesis
    by (auto simp: returned_def merge_company_at_def merge_at_def merge_company_data_def Inr first
        comp_def split: prod.splits sum.splits)
qed

section \<open>Properties of the enrichment\<close>

lemma with_fields_map_of:
  "map_of (with_fields base ups) = map_of base ++ map_of (rev ups)"
proof (induction ups arbitrary: base)
  case Nil
  then show ?case by (simp add: with_fields_def)
next
  case (Cons u ups)
  obtain k v where u: "u = (k, v)" by (cases u)
  have "with_fields base (u # ups) = with_fields (dict_set base k v) ups"
    by (simp add: with_fields_def u)
  then have "map_of (with_fields base (u # ups)) = map_of (dict_set base k v) ++ map_of (rev ups)"
    by (simp add: Cons.IH)
  also have "\<dots> = (map_of base ++ map_of [(k, v)]) ++ map_of (rev ups)"
    by (simp add: dict_set_def update_conv')
  also have "\<dots> = map_of base ++ map_of (rev (u # ups))"
    by (simp add: u)
  finally show ?case .
qed

lemma map_of_rev_distinct: "distinct (map fst xs) \<Longrightarrow> map_of (rev xs) = map_of xs"
proof (induction xs)
  case Nil
  then show ?case by simp
next
  case (Cons x xs)
  obtain k v where x: "x = (k, v)" by (cases x)
  from Cons.prems x have fresh: "map_of xs k = None" and d: "distinct (map fst xs)"
    by (simp_all add: map_of_eq_None_iff)
  have "map_of (rev (x # xs)) = map_of [(k, v)] ++ map_of xs"
    by (simp add: x Cons.IH [OF d])
  also have "\<dots> = map_of (x # xs)"
  proof
    fix j show "(map_of [(k, v)] ++ map_of xs) j = map_of (x # xs) j"
      using fresh by (cases "j = k") (auto simp: x map_add_def split: option.splits)
  qed
  finally show ?case .
qed

lemma with_fields_lookup:
  "distinct (map fst ups) \<Longrightarrow>
   map_of (with_fields base ups) k = (case map_of ups k of Some v \<Rightarrow> Some v | None \<Rightarrow> map_of base k)"
  by (simp add: with_fields_map_of map_add_def map_of_rev_distinct)

lemma default_fields_distinct: "distinct (map fst default_fields)"
  by (simp add: default_fields_def)

lemma default_profile_lookup:
  "map_of (default_profile d) k = (case map_of default_fields k of Some v \<Rightarrow> Some v | None \<Rightarrow> map_of d k)"
  unfolding default_profile_def by (rule with_fields_lookup [OF default_fields_distinct])

lemma default_profile_shape: "profile_shape (default_profile d)"
  by (simp add: profile_shape_def list_fields_def string_fields_def has_list_def has_str_def
      default_profile_lookup default_fields_def)

lemma default_profile_keeps:
  "k \<notin> set derived_keys \<Longrightarrow> map_of (default_profile d) k = map_of d k"
proof -
  assume "k \<notin> set derived_keys"
  then have "map_of default_fields k = None"
    by (simp add: derived_keys_def map_of_eq_None_iff)
  then show ?thesis by (simp add: default_profile_lookup)
qed

lemma derive_profile_fields:
  assumes "derive_profile d cb pb merged_portfolio merged_deals = Inr out"
  shows "\<exists>thesis sf sp cr ss geo st lf pf ds.
           out = with_fields d
             [(''About'', py_or (dict_get cb ''description'' (PStr []))
                                (dict_get pb ''description'' (PStr []))),
              (''Investment Thesis'', PStr thesis),
              (''Sector Focus'', PList sf),
              (''Preferred Deal Stage'', PList sp),
              (''Check Range'', PStr cr),
              (''Check Sweet Spot'', PStr ss),
              (''Geo Focus'', PStr geo),
              (''Status'', PStr st),
              (''Lead/Follow'', PStr lf),
              (''Portfolio'', PList pf),
              (''Deals'', PList ds)]"
  using assms unfolding derive_profile_def ebind_def
  by (auto split: sum.splits prod.splits) blast

lemma enhanced_record_shape:
  assumes "out = with_fields d
             [(''About'', about),
              (''Investment Thesis'', PStr thesis),
              (''Sector Focus'', PList sf),
              (''Preferred Deal Stage'', PList sp),
              (''Check Range'', PStr cr),
              (''Check Sweet Spot'', PStr ss),
              (''Geo Focus'', PStr geo),
              (''Status'', PStr st),
              (''Lead/Follow'', PStr lf),
              (''Portfolio'', PList pf),
              (''Deals'', PList ds)]"
  shows "profile_shape out" and "map_of out ''About'' = Some about"
    and "k \<notin> set derived_keys \<Longrightarrow> map_of out k = map_of d k"
proof -
  let ?ups = "[(''About'', about),
              (''Investment Thesis'', PStr thesis),
              (''Sector Focus'', PList sf),
              (''Preferred Deal Stage'', PList sp),
              (''Check Range'', PStr cr),
              (''Check Sweet Spot'', PStr ss),
              (''Geo Focus'', PStr geo),
              (''Status'', PStr st),
              (''Lead/Follow'', PStr lf),
              (''Portfolio'', PList pf),
              (''Deals'', PList ds)]"
  have dist: "distinct (map fst ?ups)" by simp
  have look: "map_of out j = (case map_of ?ups j of Some v \<Rightarrow> Some v | None \<Rightarrow> map_of d j)" for j
    unfolding assms by (rule with_fields_lookup [OF dist])
  show "profile_shape out"
    by (simp add: profile_shape_def list_fields_def string_fields_def has_list_def has_str_def look)
  show "map_of out ''About'' = Some about" by (simp add: look)
  show "map_of out k = map_of d k" if "k \<notin> set derived_keys"
  proof -
    from that have "map_of ?ups k = None"
      by (simp add: derived_keys_def default_fields_def)
    then show ?thesis by (simp only: look option.case)
  qed
qed

lemma cached_origin:
  assumes "cached table key fetch = (Inr v, t)"
  shows "v \<in> snd ` set table \<or> fetch = Inr v"
proof -
  from assms obtain k where k: "cache_key key = Inr k"
    by (auto simp: cached_def split: sum.splits)
  show ?thesis
  proof (cases "map_of table k")
    case None
    with assms k show ?thesis by (auto simp: cached_def split: sum.splits)
  next
    case (Some w)
    with assms k have "w = v" by (simp add: cached_def)
    with Some have "(k, v) \<in> set table" by (auto dest: map_of_SomeD)
    then have "v \<in> snd ` set table" by force
    then show ?thesis by simp
  qed
qed

lemma get_vc_info_typed:
  assumes "get_vc_info ps name c = (Inr (cb, pb), c1)" "descriptions_typed ps c"
  shows "str_or_absent cb ''description'' \<and> str_or_absent pb ''description''"
proof -
  from assms(1) obtain t1 t2 where
    a: "cached (cb_info_cache c) name (cb_get_vc_info ps name) = (Inr cb, t1)" and
    b: "cached (pb_info_cache c) name (pb_get_vc_info ps name) = (Inr pb, t2)"
    by (auto simp: get_vc_info_def bind_run_def split: prod.splits sum.splits)
  from cached_origin [OF a] assms(2) have "str_or_absent cb ''description''"
    by (auto simp: descriptions_typed_def)
  moreover from cached_origin [OF b] assms(2) have "str_or_absent pb ''description''"
    by (auto simp: descriptions_typed_def)
  ultimately show ?thesis by simp
qed

lemma enrich_body_result:
  assumes "enrich_body ps name d c = (Inr (out, held), c')"
  shows "\<exists>cb pb merged_portfolio merged_deals c1.
           get_vc_info ps name c = (Inr (cb, pb), c1)
         \<and> derive_profile d cb pb merged_portfolio merged_deals = Inr out"
  using assms unfolding enrich_body_def bind_run_def build_profile_def
  by (auto split: prod.splits sum.splits)

lemma enrich_vc_data_named:
  "truthy (dict_get d ''Name'' (PStr [])) \<Longrightarrow>
   enrich_vc_data ps (PDict d) c =
     (case enrich_body ps (dict_get d ''Name'' (PStr [])) d c of
        (Inr (enhanced_vc, held), c') \<Rightarrow> (Inr (PDict enhanced_vc), c')
      | (Inl e, c') \<Rightarrow> (Inr (PDict (default_profile d)), c'))"
  by (simp add: enrich_vc_data_def enrich_vc_refs_def split: prod.splits sum.splits)

lemma enrich_named:
  assumes name: "truthy (dict_get d ''Name'' (PStr []))"
  shows "\<exists>out c'. enrich_vc_data ps (PDict d) c = (Inr (PDict out), c') \<and> profile_shape out
           \<and> (\<forall>k. k \<notin> set derived_keys \<longrightarrow> map_of out k = map_of d k)
           \<and> (descriptions_typed ps c \<longrightarrow> has_str out ''About'')"
proof -
  obtain r c' where body: "enrich_body ps (dict_get d ''Name'' (PStr [])) d c = (r, c')"
    by (cases "enrich_body ps (dict_get d ''Name'' (PStr [])) d c")
  show ?thesis
  proof (cases r)
    case (Inl e)
    have "enrich_vc_data ps (PDict d) c = (Inr (PDict (default_profile d)), c')"
      using body Inl by (simp add: enrich_vc_data_named [OF name])
    moreover have "has_str (default_profile d) ''About''"
      by (simp add: has_str_def default_profile_lookup default_fields_def)
    ultimately show ?thesis
      using default_profile_shape [of d] default_profile_keeps [of _ d] by blast
  next
    case (Inr enhanced)
    obtain out held where enhanced: "enhanced = (out, held)" by (cases enhanced)
    have res: "enrich_vc_data ps (PDict d) c = (Inr (PDict out), c')"
      using body Inr enhanced by (simp add: enrich_vc_data_named [OF name])
    from enrich_body_result [OF body [unfolded Inr enhanced]]
    obtain cb pb merged_portfolio merged_deals c1
      where info: "get_vc_info ps (dict_get d ''Name'' (PStr [])) c = (Inr (cb, pb), c1)"
        and built: "derive_profile d cb pb merged_portfolio merged_deals = Inr out"
      by blast
    from derive_profile_fields [OF built] obtain thesis sf sp cr ss geo st lf pf ds where
      out: "out = with_fields d
             [(''About'', py_or (dict_get cb ''description'' (PStr []))
                                (dict_get pb ''description'' (PStr []))),
              (''Investment Thesis'', PStr thesis),
              (''Sector Focus'', PList sf),
              (''Preferred Deal Stage'', PList sp),
              (''Check Range'', PStr cr),
              (''Check Sweet Spot'', PStr ss),
              (''Geo Focus'', PStr geo),
              (''Status'', PStr st),
              (''Lead/Follow'', PStr lf),
              (''Portfolio'', PList pf),
              (''Deals'', PList ds)]"
      by blast
    have about: "has_str out ''About''" if typed: "descriptions_typed ps c"
    proof -
      from get_vc_info_typed [OF info typed]
      have "str_or_absent cb ''description''" "str_or_absent pb ''description''" by simp_all
      then obtain a b where "dict_get cb ''description'' (PStr []) = PStr a"
        "dict_get pb ''description'' (PStr []) = PStr b"
        using str_or_absent_get by blast
      then have "\<exists>s. py_or (dict_get cb ''description'' (PStr []))
                          (dict_get pb ''description'' (PStr [])) = PStr s"
        by (simp add: py_or_def)
      with enhanced_record_shape(2) [OF out] show ?thesis by (auto simp: has_str_def)
    qed
    from res enhanced_record_shape(1) [OF out] enhanced_record_shape(3) [OF out] about
    show ?thesis by blast
  qed
qed

lemma enrich_nameless:
  "\<not> truthy (dict_get d ''Name'' (PStr [])) \<Longrightarrow> enrich_vc_data ps (PDict d) c = (Inr (PDict d), c)"
  by (simp add: enrich_vc_data_def enrich_vc_refs_def)

text \<open>
  C3 (profile shape), as the code has it. For a record with a non-empty name the
  enrichment returns a record in which the four list-valued fields are lists, the six
  derived string fields are strings and \<open>About\<close> is present, a string when the providers'
  descriptions are strings; every other field of the input is kept. A record whose name
  is missing or empty is returned as it is.
\<close>

theorem enrichment_profile_shape:
  "(truthy (dict_get d ''Name'' (PStr [])) \<longrightarrow>
      (\<exists>out c'. enrich_vc_data ps (PDict d) c = (Inr (PDict out), c') \<and> profile_shape out
         \<and> (\<forall>k. k \<notin> set derived_keys \<longrightarrow> map_of out k = map_of d k)
         \<and> (descriptions_typed ps c \<longrightarrow> has_str out ''About'')))
   \<and> (\<not> truthy (dict_get d ''Name'' (PStr [])) \<longrightarrow>
        enrich_vc_data ps (PDict d) c = (Inr (PDict d), c))"
  using enrich_named [of d ps c] enrich_nameless [of d ps c] by blast

text \<open>
  A record without a name comes back without any of the profile fields, whatever the
  providers would answer.
\<close>

theorem enrichment_nameless_counterexample:
  "enrich_vc_data sample_providers (PDict [(''Website'', PStr ''nameless.vc'')]) empty_session
     = (Inr (PDict [(''Website'', PStr ''nameless.vc'')]), empty_session)
   \<and> \<not> profile_shape [(''Website'', PStr ''nameless.vc'')]
   \<and> map_of [(''Website'', PStr ''nameless.vc'')] ''Sector Focus'' = None"
  by (simp add: enrich_vc_data_def enrich_vc_refs_def dict_get_def profile_shape_def
      list_fields_def has_list_def)

lemma sample_providers_typed: "descriptions_typed sample_providers empty_session"
  by (auto simp: descriptions_typed_def sample_providers_def empty_session_def str_or_absent_def)

theorem enrichment_profile_shape_witness:
  "(\<exists>out c'. enrich_vc_data sample_providers acme_ventures empty_session = (Inr (PDict out), c')
      \<and> profile_shape out \<and> has_str out ''About''
      \<and> map_of out ''Website'' = Some (PStr ''acmeventures.com''))
   \<and> enrich_vc_data sample_providers nameless_firm empty_session = (Inr nameless_firm, empty_session)"
proof -
  let ?d = "[(''Name'', PStr ''Acme Ventures''), (''Website'', PStr ''acmeventures.com'')]"
  have n: "truthy (dict_get ?d ''Name'' (PStr []))" by (simp add: dict_get_def)
  have k: "''Website'' \<notin> set derived_keys" by (simp add: derived_keys_def default_fields_def)
  from enrichment_profile_shape [of ?d sample_providers empty_session] n sample_providers_typed
  obtain out c' where o: "enrich_vc_data sample_providers (PDict ?d) empty_session = (Inr (PDict out), c')"
    "profile_shape out" "\<forall>k. k \<notin> set derived_keys \<longrightarrow> map_of out k = map_of ?d k"
    "has_str out ''About''"
    by blast
  from o(3) k have "map_of out ''Website'' = Some (PStr ''acmeventures.com'')" by simp
  with o(1,2,4) have a: "\<exists>out c'. enrich_vc_data sample_providers acme_ventures empty_session = (Inr (PDict out), c')
      \<and> profile_shape out \<and> has_str out ''About''
      \<and> map_of out ''Website'' = Some (PStr ''acmeventures.com'')"
    unfolding acme_ventures_def by blast
  let ?e = "[(''Website'', PStr ''nameless.vc'')]"
  have "\<not> truthy (dict_get ?e ''Name'' (PStr []))" by (simp add: dict_get_def)
  with enrichment_profile_shape [of ?e sample_providers empty_session]
  have b: "enrich_vc_data sample_providers nameless_firm empty_session = (Inr nameless_firm, empty_session)"
    unfolding nameless_firm_def by blast
  from a b show ?thesis by blast
qed


lemma enrich_refs_dict:
  "\<exists>r held s1. enrich_vc_refs ps (PDict d) s = (Inr (PDict r, held), s1)
     \<and> (\<forall>k. k \<notin> set derived_keys \<longrightarrow> map_of r k = map_of d k)
     \<and> (raises ps d s \<longrightarrow> r = default_profile d \<and> held = None)"
proof (cases "truthy (dict_get d ''Name'' (PStr []))")
  case False
  then show ?thesis by (simp add: enrich_vc_refs_def raises_def)
next
  case True
  obtain res s1 where body: "enrich_body ps (dict_get d ''Name'' (PStr [])) d s = (res, s1)"
    by (cases "enrich_body ps (dict_get d ''Name'' (PStr [])) d s")
  show ?thesis
  proof (cases res)
    case (Inl e)
    then have "enrich_vc_refs ps (PDict d) s = (Inr (PDict (default_profile d), None), s1)"
      using True body by (simp add: enrich_vc_refs_def)
    then show ?thesis using default_profile_keeps [of _ d] by simp
  next
    case (Inr enhanced)
    obtain out pf ds where enhanced: "enhanced = (out, pf, ds)" by (cases enhanced)
    have refs: "enrich_vc_refs ps (PDict d) s = (Inr (PDict out, Some (pf, ds)), s1)"
      using True body Inr enhanced by (simp add: enrich_vc_refs_def)
    have quiet: "\<not> raises ps d s" using body Inr by (simp add: raises_def)
    from enrich_named [OF True, of ps s] obtain out' c' where
      "enrich_vc_data ps (PDict d) s = (Inr (PDict out'), c')"
      "\<forall>k. k \<notin> set derived_keys \<longrightarrow> map_of out' k = map_of d k"
      by blast
    with refs have "\<forall>k. k \<notin> set derived_keys \<longrightarrow> map_of out k = map_of d k"
      by (simp add: enrich_vc_data_def)
    with refs quiet show ?thesis by simp
  qed
qed

lemma dict_set_other: "k \<noteq> j \<Longrightarrow> map_of (dict_set d j v) k = map_of d k"
  by (simp add: dict_set_def update_conv')

lemma read_in_dict:
  "\<exists>r'. read_in st (PDict r, held) = PDict r'
     \<and> (\<forall>k. k \<notin> set derived_keys \<longrightarrow> map_of r' k = map_of r k)
     \<and> (held = None \<longrightarrow> r' = r)"
proof (cases held)
  case None
  then show ?thesis by (simp add: read_in_def)
next
  case (Some h)
  obtain pf ds where h: "h = (pf, ds)" by (cases h)
  have "k \<noteq> ''Portfolio'' \<and> k \<noteq> ''Deals''" if "k \<notin> set derived_keys" for k
    using that by (auto simp: derived_keys_def default_fields_def)
  then show ?thesis
    using Some h by (simp add: read_in_def dict_set_other)
qed

lemma enrich_each_Cons_dict:
  "enrich_vc_refs ps (PDict d) s = (Inr enhanced, s1) \<Longrightarrow>
   enrich_each ps (PDict d # rest) s =
     (case enrich_each ps rest s1 of
        (Inl e, s2) \<Rightarrow> (Inl e, s2)
      | (Inr enhanced_vcs, s2) \<Rightarrow> (Inr (enhanced # enhanced_vcs), s2))"
  by (simp add: py_get_def)

lemma enrich_each_dicts:
  "\<forall>vc\<in>set vcs. is_dict vc \<Longrightarrow>
   \<exists>outs s'. enrich_each ps vcs s = (Inr outs, s') \<and> length outs = length vcs
     \<and> (\<forall>i<length vcs. \<exists>d r held. vcs ! i = PDict d \<and> outs ! i = (PDict r, held)
           \<and> (\<forall>k. k \<notin> set derived_keys \<longrightarrow> map_of r k = map_of d k)
           \<and> (raises ps d (snd (enrich_each ps (take i vcs) s)) \<longrightarrow>
                r = default_profile d \<and> held = None))"
proof (induction vcs arbitrary: s)
  case Nil
  then show ?case by simp
next
  case (Cons vc vcs)
  from Cons.prems obtain d where d: "vc = PDict d" by (auto simp: is_dict_def split: pyval.splits)
  from enrich_refs_dict [of ps d s] obtain r held s1 where
    first: "enrich_vc_refs ps (PDict d) s = (Inr (PDict r, held), s1)"
    and keeps: "\<forall>k. k \<notin> set derived_keys \<longrightarrow> map_of r k = map_of d k"
    and dflt: "raises ps d s \<longrightarrow> r = default_profile d \<and> held = None"
    by (elim exE conjE) (rule that, assumption+)
  from Cons.prems have "\<forall>vc\<in>set vcs. is_dict vc" by simp
  from Cons.IH [OF this, of s1] obtain outs s' where
    rest: "enrich_each ps vcs s1 = (Inr outs, s')" and len: "length outs = length vcs"
    and each: "\<forall>i<length vcs. \<exists>d r held. vcs ! i = PDict d \<and> outs ! i = (PDict r, held)
           \<and> (\<forall>k. k \<notin> set derived_keys \<longrightarrow> map_of r k = map_of d k)
           \<and> (raises ps d (snd (enrich_each ps (take i vcs) s1)) \<longrightarrow>
                r = default_profile d \<and> held = None)"
    by (elim exE conjE) (rule that, assumption+)
  have all: "enrich_each ps (PDict d # vcs) s = (Inr ((PDict r, held) # outs), s')"
    by (simp add: enrich_each_Cons_dict [OF first] rest del: enrich_each.simps)
  have before: "snd (enrich_each ps (take (Suc j) (PDict d # vcs)) s)
                  = snd (enrich_each ps (take j vcs) s1)" for j
    by (simp add: enrich_each_Cons_dict [OF first] del: enrich_each.simps
        split: prod.splits sum.splits)
  have every: "\<forall>i<length (PDict d # vcs). \<exists>d' r' held'. (PDict d # vcs) ! i = PDict d'
           \<and> ((PDict r, held) # outs) ! i = (PDict r', held')
           \<and> (\<forall>k. k \<notin> set derived_keys \<longrightarrow> map_of r' k = map_of d' k)
           \<and> (raises ps d' (snd (enrich_each ps (take i (PDict d # vcs)) s)) \<longrightarrow>
                r' = default_profile d' \<and> held' = None)"
  proof (intro allI impI)
    fix i assume i: "i < length (PDict d # vcs)"
    show "\<exists>d' r' held'. (PDict d # vcs) ! i = PDict d'
           \<and> ((PDict r, held) # outs) ! i = (PDict r', held')
           \<and> (\<forall>k. k \<notin> set derived_keys \<longrightarrow> map_of r' k = map_of d' k)
           \<and> (raises ps d' (snd (enrich_each ps (take i (PDict d # vcs)) s)) \<longrightarrow>
                r' = default_profile d' \<and> held' = None)"
    proof (cases i)
      case 0
      have start: "snd (enrich_each ps (take 0 (PDict d # vcs)) s) = s" by simp
      have "(PDict d # vcs) ! 0 = PDict d" by simp
      moreover have "((PDict r, held) # outs) ! 0 = (PDict r, held)" by simp
      moreover note keeps
      moreover have "raises ps d (snd (enrich_each ps (take 0 (PDict d # vcs)) s)) \<longrightarrow>
                       r = default_profile d \<and> held = None"
        unfolding start by (rule dflt)
      ultimately show ?thesis
        unfolding 0 by (intro exI [of _ d] exI [of _ r] exI [of _ held] conjI) assumption+
    next
      case (Suc j)
      with i have "j < length vcs" by simp
      from each [rule_format, OF this] obtain d' r' held' where
        at: "vcs ! j = PDict d'" "outs ! j = (PDict r', held')"
        and keeps': "\<forall>k. k \<notin> set derived_keys \<longrightarrow> map_of r' k = map_of d' k"
        and dflt': "raises ps d' (snd (enrich_each ps (take j vcs) s1)) \<longrightarrow>
                      r' = default_profile d' \<and> held' = None"
        by (elim exE conjE) (rule that, assumption+)
      have "(PDict d # vcs) ! Suc j = PDict d'" using at(1) by simp
      moreover have "((PDict r, held) # outs) ! Suc j = (PDict r', held')" using at(2) by simp
      moreover note keeps'
      moreover have "raises ps d' (snd (enrich_each ps (take (Suc j) (PDict d # vcs)) s)) \<longrightarrow>
           r' = default_profile d' \<and> held' = None"
        unfolding before by (rule dflt')
      ultimately show ?thesis
        unfolding Suc by (intro exI [of _ d'] exI [of _ r'] exI [of _ held'] conjI) assumption+
    qed
  qed
  show ?case
    unfolding d
  proof (intro exI conjI)
    show "enrich_each ps (PDict d # vcs) s = (Inr ((PDict r, held) # outs), s')" by (rule all)
    show "length ((PDict r, held) # outs) = length (PDict d # vcs)" by (simp add: len)
    show "\<forall>i<length (PDict d # vcs). \<exists>d' r' held'. (PDict d # vcs) ! i = PDict d'
           \<and> ((PDict r, held) # outs) ! i = (PDict r', held')
           \<and> (\<forall>k. k \<notin> set derived_keys \<longrightarrow> map_of r' k = map_of d' k)
           \<and> (raises ps d' (snd (enrich_each ps (take i (PDict d # vcs)) s)) \<longrightarrow>
                r' = default_profile d' \<and> held' = None)"
      by (rule every)
  qed
qed

lemma session_after_batch:
  "snd (enrich_multiple_vcs ps vcs s) = snd (enrich_each ps vcs s)"
  by (simp add: enrich_multiple_vcs_def split: prod.splits sum.splits)

text \<open>
  C7 (batch enrichment). A batch of \<open>N\<close> firm records, each a dictionary, returns exactly
  \<open>N\<close> records and never an exception. The record at each position keeps every field of
  the input at that position that is not a derived one; and when an exception is raised
  while that firm is enriched, in the session as the firms before it have left it, the
  record is the default record of that input: every derived field holds its default, the
  empty list, the empty string, \<open>Unknown\<close> or \<open>USA\<close>, and every other field is the input's.
\<close>

theorem batch_enrichment_total:
  "(\<forall>vc\<in>set vcs. is_dict vc) \<longrightarrow>
     (\<exists>outs s'. enrich_multiple_vcs ps vcs s = (Inr outs, s') \<and> length outs = length vcs
        \<and> (\<forall>i<length vcs. \<exists>d r. vcs ! i = PDict d \<and> outs ! i = PDict r
              \<and> (\<forall>k. k \<notin> set derived_keys \<longrightarrow> map_of r k = map_of d k)
              \<and> (raises ps d (snd (enrich_multiple_vcs ps (take i vcs) s)) \<longrightarrow>
                   r = default_profile d
                   \<and> (\<forall>k. map_of r k = (case map_of default_fields k of
                                           Some v \<Rightarrow> Some v | None \<Rightarrow> map_of d k)))))"
proof
  assume "\<forall>vc\<in>set vcs. is_dict vc"
  from enrich_each_dicts [OF this, of ps s] obtain outs s' where
    run: "enrich_each ps vcs s = (Inr outs, s')" and len: "length outs = length vcs"
    and each: "\<forall>i<length vcs. \<exists>d r held. vcs ! i = PDict d \<and> outs ! i = (PDict r, held)
           \<and> (\<forall>k. k \<notin> set derived_keys \<longrightarrow> map_of r k = map_of d k)
           \<and> (raises ps d (snd (enrich_each ps (take i vcs) s)) \<longrightarrow>
                r = default_profile d \<and> held = None)"
    by (elim exE conjE) (rule that, assumption+)
  have batch: "enrich_multiple_vcs ps vcs s = (Inr (map (read_in (objects s')) outs), s')"
    by (simp add: enrich_multiple_vcs_def run)
  have every: "\<forall>i<length vcs. \<exists>d r. vcs ! i = PDict d \<and> map (read_in (objects s')) outs ! i = PDict r
              \<and> (\<forall>k. k \<notin> set derived_keys \<longrightarrow> map_of r k = map_of d k)
              \<and> (raises ps d (snd (enrich_multiple_vcs ps (take i vcs) s)) \<longrightarrow>
                   r = default_profile d
                   \<and> (\<forall>k. map_of r k = (case map_of default_fields k of
                                           Some v \<Rightarrow> Some v | None \<Rightarrow> map_of d k)))"
  proof (intro allI impI)
    fix i assume i: "i < length vcs"
    from each [rule_format, OF i] obtain d r held where
      at: "vcs ! i = PDict d" "outs ! i = (PDict r, held)"
      and keeps: "\<forall>k. k \<notin> set derived_keys \<longrightarrow> map_of r k = map_of d k"
      and dflt: "raises ps d (snd (enrich_each ps (take i vcs) s)) \<longrightarrow>
                   r = default_profile d \<and> held = None"
      by (elim exE conjE) (rule that, assumption+)
    from read_in_dict [of "objects s'" r held] obtain r' where
      r': "read_in (objects s') (PDict r, held) = PDict r'"
      and same: "\<forall>k. k \<notin> set derived_keys \<longrightarrow> map_of r' k = map_of r k"
      and plain: "held = None \<longrightarrow> r' = r"
      by (elim exE conjE) (rule that, assumption+)
    have shown: "map (read_in (objects s')) outs ! i = PDict r'"
      using i len at(2) r' by simp
    have keeps': "\<forall>k. k \<notin> set derived_keys \<longrightarrow> map_of r' k = map_of d k"
      using keeps same by simp
    have dflt': "raises ps d (snd (enrich_multiple_vcs ps (take i vcs) s)) \<longrightarrow>
          r' = default_profile d
          \<and> (\<forall>k. map_of r' k = (case map_of default_fields k of
                                  Some v \<Rightarrow> Some v | None \<Rightarrow> map_of d k))"
    proof
      assume "raises ps d (snd (enrich_multiple_vcs ps (take i vcs) s))"
      with dflt have "r = default_profile d" "held = None"
        by (simp_all add: session_after_batch)
      with plain have "r' = default_profile d" by simp
      then show "r' = default_profile d
          \<and> (\<forall>k. map_of r' k = (case map_of default_fields k of
                                  Some v \<Rightarrow> Some v | None \<Rightarrow> map_of d k))"
        by (simp add: default_profile_lookup)
    qed
    from at(1) shown keeps' dflt'
    show "\<exists>d r. vcs ! i = PDict d \<and> map (read_in (objects s')) outs ! i = PDict r
              \<and> (\<forall>k. k \<notin> set derived_keys \<longrightarrow> map_of r k = map_of d k)
              \<and> (raises ps d (snd (enrich_multiple_vcs ps (take i vcs) s)) \<longrightarrow>
                   r = default_profile d
                   \<and> (\<forall>k. map_of r k = (case map_of default_fields k of
                                           Some v \<Rightarrow> Some v | None \<Rightarrow> map_of d k)))"
      by (intro exI [of _ d] exI [of _ r'] conjI) assumption+
  qed
  show "\<exists>outs s'. enrich_multiple_vcs ps vcs s = (Inr outs, s') \<and> length outs = length vcs
        \<and> (\<forall>i<length vcs. \<exists>d r. vcs ! i = PDict d \<and> outs ! i = PDict r
              \<and> (\<forall>k. k \<notin> set derived_keys \<longrightarrow> map_of r k = map_of d k)
              \<and> (raises ps d (snd (enrich_multiple_vcs ps (take i vcs) s)) \<longrightarrow>
                   r = default_profile d
                   \<and> (\<forall>k. map_of r k = (case map_of default_fields k of
                                           Some v \<Rightarrow> Some v | None \<Rightarrow> map_of d k))))"
  proof (intro exI conjI)
    show "enrich_multiple_vcs ps vcs s = (Inr (map (read_in (objects s')) outs), s')"
      by (rule batch)
    show "length (map (read_in (objects s')) outs) = length vcs" by (simp add: len)
    show "\<forall>i<length vcs. \<exists>d r. vcs ! i = PDict d \<and> map (read_in (objects s')) outs ! i = PDict r
              \<and> (\<forall>k. k \<notin> set derived_keys \<longrightarrow> map_of r k = map_of d k)
              \<and> (raises ps d (snd (enrich_multiple_vcs ps (take i vcs) s)) \<longrightarrow>
                   r = default_profile d
                   \<and> (\<forall>k. map_of r k = (case map_of default_fields k of
                                           Some v \<Rightarrow> Some v | None \<Rightarrow> map_of d k)))"
      by (rule every)
  qed
qed

theorem batch_enrichment_total_witness:
  "\<exists>outs s'. enrich_multiple_vcs flaky_providers [acme_ventures, beta_capital, nameless_firm]
                 empty_session = (Inr outs, s')
      \<and> length outs = 3
      \<and> outs ! 1 = PDict (default_profile
                           [(''Name'', PStr ''Beta Capital''), (''Website'', PStr ''betacapital.com'')])
      \<and> (\<exists>r. outs ! 1 = PDict r \<and> map_of r ''Website'' = Some (PStr ''betacapital.com'')
             \<and> map_of r ''Geo Focus'' = Some (PStr ''USA'')
             \<and> map_of r ''Portfolio'' = Some (PList []))
      \<and> (\<exists>r. outs ! 0 = PDict r \<and> map_of r ''Website'' = Some (PStr ''acmeventures.com''))"
proof -
  let ?vcs = "[acme_ventures, beta_capital, nameless_firm]"
  let ?a = "[(''Name'', PStr ''Acme Ventures''), (''Website'', PStr ''acmeventures.com'')]"
  let ?b = "[(''Name'', PStr ''Beta Capital''), (''Website'', PStr ''betacapital.com'')]"
  have dicts: "\<forall>vc\<in>set ?vcs. is_dict vc"
    by (simp add: is_dict_def acme_ventures_def beta_capital_def nameless_firm_def)
  have failing: "raises flaky_providers ?b
      (snd (enrich_multiple_vcs flaky_providers (take 1 ?vcs) empty_session))"
    by code_simp
  have web: "''Website'' \<notin> set derived_keys" by (simp add: derived_keys_def default_fields_def)
  from batch_enrichment_total [of ?vcs flaky_providers empty_session] dicts
  have "\<exists>outs s'. enrich_multiple_vcs flaky_providers ?vcs empty_session = (Inr outs, s')
        \<and> length outs = length ?vcs
        \<and> (\<forall>i<length ?vcs. \<exists>d r. ?vcs ! i = PDict d \<and> outs ! i = PDict r
              \<and> (\<forall>k. k \<notin> set derived_keys \<longrightarrow> map_of r k = map_of d k)
              \<and> (raises flaky_providers d
                     (snd (enrich_multiple_vcs flaky_providers (take i ?vcs) empty_session)) \<longrightarrow>
                   r = default_profile d
                   \<and> (\<forall>k. map_of r k = (case map_of default_fields k of
                                           Some v \<Rightarrow> Some v | None \<Rightarrow> map_of d k))))"
    by (rule mp)
  then obtain outs s' where
    run: "enrich_multiple_vcs flaky_providers ?vcs empty_session = (Inr outs, s')"
    and len: "length outs = length ?vcs"
    and each: "\<forall>i<length ?vcs. \<exists>d r. ?vcs ! i = PDict d \<and> outs ! i = PDict r
              \<and> (\<forall>k. k \<notin> set derived_keys \<longrightarrow> map_of r k = map_of d k)
              \<and> (raises flaky_providers d
                     (snd (enrich_multiple_vcs flaky_providers (take i ?vcs) empty_session)) \<longrightarrow>
                   r = default_profile d
                   \<and> (\<forall>k. map_of r k = (case map_of default_fields k of
                                           Some v \<Rightarrow> Some v | None \<Rightarrow> map_of d k)))"
    by (elim exE conjE) (rule that, assumption+)
  have one: "1 < length ?vcs" and zero: "0 < length ?vcs" by simp_all
  from each [rule_format, OF one] obtain d r where
    at: "?vcs ! 1 = PDict d" "outs ! 1 = PDict r"
    and dflt: "raises flaky_providers d
                 (snd (enrich_multiple_vcs flaky_providers (take 1 ?vcs) empty_session)) \<longrightarrow>
               r = default_profile d
               \<and> (\<forall>k. map_of r k = (case map_of default_fields k of
                                       Some v \<Rightarrow> Some v | None \<Rightarrow> map_of d k))"
    by (elim exE conjE) (rule that, assumption+)
  from at(1) have d: "d = ?b" by (simp add: beta_capital_def)
  from dflt [unfolded d] failing have r: "r = default_profile ?b"
    and look: "\<forall>k. map_of r k = (case map_of default_fields k of
                                   Some v \<Rightarrow> Some v | None \<Rightarrow> map_of ?b k)"
    by blast+
  have fields: "map_of r ''Website'' = Some (PStr ''betacapital.com'')"
    "map_of r ''Geo Focus'' = Some (PStr ''USA'')" "map_of r ''Portfolio'' = Some (PList [])"
    by (simp_all add: look default_fields_def)
  from each [rule_format, OF zero] obtain d0 r0 where
    at0: "?vcs ! 0 = PDict d0" "outs ! 0 = PDict r0"
    and keeps0: "\<forall>k. k \<notin> set derived_keys \<longrightarrow> map_of r0 k = map_of d0 k"
    by (elim exE conjE) (rule that, assumption+)
  from at0(1) have "d0 = ?a" by (simp add: acme_ventures_def)
  with keeps0 web have "map_of r0 ''Website'' = Some (PStr ''acmeventures.com'')" by simp
  with at0(2) have first: "\<exists>r. outs ! 0 = PDict r \<and> map_of r ''Website'' = Some (PStr ''acmeventures.com'')"
    by blast
  from at(2) r have second: "outs ! 1 = PDict (default_profile ?b)" by simp
  from at(2) fields have third: "\<exists>r. outs ! 1 = PDict r \<and> map_of r ''Website'' = Some (PStr ''betacapital.com'')
             \<and> map_of r ''Geo Focus'' = Some (PStr ''USA'')
             \<and> map_of r ''Portfolio'' = Some (PList [])"
    by blast
  from len have len3: "length outs = 3" by simp
  from run len3 second third first show ?thesis by blast
qed

text \<open>
  A record that two profiles hold is one object. Here the second firm's merge fills the
  record that the first firm's merge has filled before, and both profiles of the batch
  show it as it is in the end; the first firm enriched alone shows it without the later
  field.
\<close>

lemma shared_record_filled:
  "map (\<lambda>v. py_get v ''Portfolio'' PNone)
     (projr (fst (enrich_multiple_vcs shared_providers [first_fund, second_fund] empty_session)))
   = [Inr (PList [PDict [(''name'', PStr ''Acme''), (''website'', PStr ''one.com''),
                         (''founded'', PStr ''2021'')]]),
      Inr (PList [PDict [(''name'', PStr ''Acme''), (''website'', PStr ''one.com''),
                         (''founded'', PStr ''2021'')]])]"
  "py_get (projr (fst (enrich_vc_data shared_providers first_fund empty_session))) ''Portfolio'' PNone
   = Inr (PList [PDict [(''name'', PStr ''Acme''), (''website'', PStr ''one.com'')]])"
  by code_simp+

end
